theory Spec2Isabelle
  imports Main "HOL-Library.Word"
begin

unbundle bit_operations_syntax

section \<open>Constants of shastina.c\<close>

text \<open>
  The C types \<^verbatim>\<open>int\<close> and \<^verbatim>\<open>long\<close> are modelled by \<^typ>\<open>int\<close>: every
  arithmetic step of the modelled functions is guarded in the source so that it stays
  inside the range of its type (line counts and nesting levels saturate at
  \<^verbatim>\<open>LONG_MAX\<close>, buffer capacities are at most half of it), so no operation wraps.
  \<^verbatim>\<open>LONG_MAX\<close> is the value of an LP64 platform.  Bytes (\<^verbatim>\<open>char\<close>,
  \<^verbatim>\<open>unsigned char\<close>) are \<^typ>\<open>8 word\<close>.
\<close>

definition LONG_MAX :: int where "LONG_MAX = 9223372036854775807"

definition SNERR_IOERR :: int where "SNERR_IOERR = -1"
definition SNERR_EOF :: int where "SNERR_EOF = -2"
definition SNERR_BADSIG :: int where "SNERR_BADSIG = -3"
definition SNERR_OPENSTR :: int where "SNERR_OPENSTR = -4"
definition SNERR_LONGSTR :: int where "SNERR_LONGSTR = -5"
definition SNERR_NULLCHR :: int where "SNERR_NULLCHR = -6"
definition SNERR_DEEPCURLY :: int where "SNERR_DEEPCURLY = -7"
definition SNERR_BADCHAR :: int where "SNERR_BADCHAR = -8"
definition SNERR_LONGTOKEN :: int where "SNERR_LONGTOKEN = -9"
definition SNERR_TRAILER :: int where "SNERR_TRAILER = -10"

definition ASCII_HT :: int where "ASCII_HT = 0x09"
definition ASCII_LF :: int where "ASCII_LF = 0x0a"
definition ASCII_CR :: int where "ASCII_CR = 0x0d"
definition ASCII_SP :: int where "ASCII_SP = 0x20"
definition ASCII_DQUOTE :: int where "ASCII_DQUOTE = 0x22"
definition ASCII_POUNDSIGN :: int where "ASCII_POUNDSIGN = 0x23"
definition ASCII_PERCENT :: int where "ASCII_PERCENT = 0x25"
definition ASCII_LPAREN :: int where "ASCII_LPAREN = 0x28"
definition ASCII_RPAREN :: int where "ASCII_RPAREN = 0x29"
definition ASCII_COMMA :: int where "ASCII_COMMA = 0x2c"
definition ASCII_SEMICOLON :: int where "ASCII_SEMICOLON = 0x3b"
definition ASCII_LSQR :: int where "ASCII_LSQR = 0x5b"
definition ASCII_BACKSLASH :: int where "ASCII_BACKSLASH = 0x5c"
definition ASCII_RSQR :: int where "ASCII_RSQR = 0x5d"
definition ASCII_GRACCENT :: int where "ASCII_GRACCENT = 0x60"
definition ASCII_LCURL :: int where "ASCII_LCURL = 0x7b"
definition ASCII_BAR :: int where "ASCII_BAR = 0x7c"
definition ASCII_RCURL :: int where "ASCII_RCURL = 0x7d"

definition ASCII_VISIBLE_MIN :: int where "ASCII_VISIBLE_MIN = 0x21"
definition ASCII_VISIBLE_MAX :: int where "ASCII_VISIBLE_MAX = 0x7e"

definition SNFILTER_BOM_1 :: int where "SNFILTER_BOM_1 = 0xef"
definition SNFILTER_BOM_2 :: int where "SNFILTER_BOM_2 = 0xbb"
definition SNFILTER_BOM_3 :: int where "SNFILTER_BOM_3 = 0xbf"

lemmas snerr_defs =
  SNERR_IOERR_def SNERR_EOF_def SNERR_BADSIG_def SNERR_OPENSTR_def SNERR_LONGSTR_def
  SNERR_NULLCHR_def SNERR_DEEPCURLY_def SNERR_BADCHAR_def SNERR_LONGTOKEN_def
  SNERR_TRAILER_def

lemmas ascii_defs =
  ASCII_HT_def ASCII_LF_def ASCII_CR_def ASCII_SP_def ASCII_DQUOTE_def
  ASCII_POUNDSIGN_def ASCII_PERCENT_def ASCII_LPAREN_def ASCII_RPAREN_def
  ASCII_COMMA_def ASCII_SEMICOLON_def ASCII_LSQR_def ASCII_BACKSLASH_def
  ASCII_RSQR_def ASCII_GRACCENT_def ASCII_LCURL_def ASCII_BAR_def ASCII_RCURL_def
  ASCII_VISIBLE_MIN_def ASCII_VISIBLE_MAX_def

lemmas bom_defs = SNFILTER_BOM_1_def SNFILTER_BOM_2_def SNFILTER_BOM_3_def

section \<open>The standard input stream\<close>

text \<open>
  The functions of shastina.c read a \<^verbatim>\<open>FILE *\<close> with \<^verbatim>\<open>getc\<close>,
  \<^verbatim>\<open>feof\<close> and \<^verbatim>\<open>ungetc\<close>.  A stream is the finite list of what the
  coming calls of \<^verbatim>\<open>getc\<close> meet, a byte or a read error, followed by the end of
  the file, together with the end-of-file indicator that \<^verbatim>\<open>feof\<close> reports.
  \<^verbatim>\<open>getc\<close> answers \<^verbatim>\<open>EOF\<close> both at the end of the file (setting the
  indicator) and on a read error (leaving it).  \<^verbatim>\<open>ungetc\<close> puts one byte back
  in front and clears the indicator; it fails only for the argument \<^verbatim>\<open>EOF\<close>.
  In the source every \<^verbatim>\<open>ungetc\<close> follows a \<^verbatim>\<open>getc\<close> of the same call with
  no other \<^verbatim>\<open>ungetc\<close> between them, which is the one byte of push-back that the
  C standard guarantees.
\<close>

datatype stdio_event = Byte "8 word" | ReadError

record FILE =
  pending :: "stdio_event list"
  eof_ind :: bool

definition EOF :: int where "EOF = -1"

definition fopen :: "8 word list \<Rightarrow> FILE" where
  "fopen bs = \<lparr>pending = map Byte bs, eof_ind = False\<rparr>"

definition getc :: "FILE \<Rightarrow> int \<times> FILE" where
  "getc pIn =
     (case pending pIn of
        [] \<Rightarrow> (EOF, pIn\<lparr>eof_ind := True\<rparr>)
      | ReadError # rest \<Rightarrow> (EOF, pIn\<lparr>pending := rest\<rparr>)
      | Byte b # rest \<Rightarrow> (uint b, pIn\<lparr>pending := rest\<rparr>))"

definition feof :: "FILE \<Rightarrow> bool" where
  "feof pIn = eof_ind pIn"

definition ungetc :: "int \<Rightarrow> FILE \<Rightarrow> int \<times> FILE" where
  "ungetc ch pIn =
     (if ch = EOF then (EOF, pIn)
      else (ch, pIn\<lparr>pending := Byte (word_of_int ch) # pending pIn, eof_ind := False\<rparr>))"

section \<open>The input filter of shastina.c\<close>

text \<open>
  The structure \<^verbatim>\<open>SNFILTER\<close>.  Its field \<^verbatim>\<open>c\<close>, the character most recently
  read or one of the negative conditions, is named \<open>last_c\<close> here.
\<close>

record SNFILTER =
  line_count :: int
  last_c :: int
  pushback :: int
  bom_present :: int

definition snfilter_reset :: SNFILTER where
  "snfilter_reset = \<lparr>line_count = 0, last_c = 0, pushback = 0, bom_present = 0\<rparr>"

text \<open>
  \<^verbatim>\<open>snfilter_read\<close>, first block (the statement guarded by
  \<^verbatim>\<open>line_count == 0\<close>): look for a UTF-8 byte order mark.  The result is the value of
  \<^verbatim>\<open>err_num\<close> after the block with the filter and the stream.
\<close>

definition snfilter_read_signature :: "SNFILTER \<Rightarrow> FILE \<Rightarrow> int \<times> SNFILTER \<times> FILE" where
  "snfilter_read_signature pFilter pIn =
     (let (c, pIn) = getc pIn;
          err_num = (if c = EOF then (if feof pIn then SNERR_EOF else SNERR_IOERR) else 0)
      in if err_num = 0 \<and> c = SNFILTER_BOM_1 then
           (let (c, pIn) = getc pIn;
                err_num = (if c = EOF
                           then (if feof pIn then SNERR_BADSIG else SNERR_IOERR)
                           else err_num);
                err_num = (if err_num = 0 \<and> c \<noteq> SNFILTER_BOM_2 then SNERR_BADSIG else err_num);
                (err_num, pIn) =
                  (if err_num = 0 then
                     (let (c, pIn) = getc pIn;
                          err_num = (if c = EOF
                                     then (if feof pIn then SNERR_BADSIG else SNERR_IOERR)
                                     else err_num);
                          err_num = (if err_num = 0 \<and> c \<noteq> SNFILTER_BOM_3
                                     then SNERR_BADSIG else err_num)
                      in (err_num, pIn))
                   else (err_num, pIn));
                pFilter = (if err_num = 0 then pFilter\<lparr>bom_present := 1\<rparr> else pFilter)
            in (err_num, pFilter, pIn))
         else if err_num = 0 then
           (let (r, pIn) = ungetc c pIn
            in ((if r = EOF then SNERR_IOERR else err_num), pFilter, pIn))
         else (err_num, pFilter, pIn))"

text \<open>
  \<^verbatim>\<open>snfilter_read\<close>, second block (the statement guarded by "not in pushback mode
  and no special condition"): read a character, pair CR with LF and LF with CR, turn CR
  into LF and update the filter.
\<close>

definition snfilter_read_next :: "int \<Rightarrow> SNFILTER \<Rightarrow> FILE \<Rightarrow> int \<times> SNFILTER \<times> FILE" where
  "snfilter_read_next err_num pFilter pIn =
     (if err_num = 0 \<and> pushback pFilter = 0 \<and>
         (line_count pFilter = 0 \<or> last_c pFilter \<ge> 0) then
        (let (c, pIn) = getc pIn;
             err_num = (if c = EOF then (if feof pIn then SNERR_EOF else SNERR_IOERR)
                        else err_num);
             (err_num, pIn) =
               (if err_num = 0 \<and> (c = ASCII_CR \<or> c = ASCII_LF) then
                  (let (c2, pIn) = getc pIn;
                       (c2, err_num) =
                         (if c2 = EOF
                          then (if feof pIn then (-1, err_num) else (c2, SNERR_IOERR))
                          else (c2, err_num))
                   in if err_num = 0 \<and>
                         ((c = ASCII_LF \<and> c2 \<noteq> ASCII_CR) \<or> (c = ASCII_CR \<and> c2 \<noteq> ASCII_LF))
                      then (if c2 \<noteq> -1
                            then (let (r, pIn) = ungetc c2 pIn
                                  in ((if r = EOF then SNERR_IOERR else err_num), pIn))
                            else (err_num, pIn))
                      else (err_num, pIn))
                else (err_num, pIn));
             c = (if err_num = 0 \<and> c = ASCII_CR then ASCII_LF else c);
             pFilter =
               (if err_num = 0 then
                  (if line_count pFilter = 0 then pFilter\<lparr>last_c := c, line_count := 1\<rparr>
                   else (let pFilter =
                               (if c = ASCII_LF \<and> line_count pFilter < LONG_MAX
                                then pFilter\<lparr>line_count := line_count pFilter + 1\<rparr>
                                else pFilter)
                         in pFilter\<lparr>last_c := c\<rparr>))
                else pFilter)
         in (err_num, pFilter, pIn))
      else (err_num, pFilter, pIn))"

text \<open>
  \<^verbatim>\<open>snfilter_read\<close>: the two blocks, then the pushback flag is cleared and an error
  is written into the structure.  The result is the returned character or condition with
  the filter and the stream after the call.
\<close>

definition snfilter_read :: "SNFILTER \<Rightarrow> FILE \<Rightarrow> int \<times> SNFILTER \<times> FILE" where
  "snfilter_read pFilter pIn =
     (let err_num = 0;
          (err_num, pFilter, pIn) =
            (if err_num = 0 \<and> line_count pFilter = 0
             then snfilter_read_signature pFilter pIn
             else (err_num, pFilter, pIn));
          (err_num, pFilter, pIn) = snfilter_read_next err_num pFilter pIn;
          pFilter = pFilter\<lparr>pushback := 0\<rparr>;
          pFilter = (if err_num \<noteq> 0 then pFilter\<lparr>last_c := err_num\<rparr> else pFilter)
      in (last_c pFilter, pFilter, pIn))"

definition snfilter_count :: "SNFILTER \<Rightarrow> int" where
  "snfilter_count pFilter =
     (let lc = line_count pFilter;
          lc = (if lc < 1 then 1 else lc);
          lc = (if pushback pFilter = 0 \<and> line_count pFilter > 0 \<and>
                   last_c pFilter = ASCII_LF \<and> lc < LONG_MAX
                then lc + 1 else lc)
      in lc)"

definition snfilter_bomflag :: "SNFILTER \<Rightarrow> int" where
  "snfilter_bomflag pFilter = bom_present pFilter"

text \<open>
  \<^verbatim>\<open>snfilter_pushback\<close>: the status (non-zero for success) and the filter after the
  call.
\<close>

definition snfilter_pushback :: "SNFILTER \<Rightarrow> int \<times> SNFILTER" where
  "snfilter_pushback pFilter =
     (if line_count pFilter = 0 \<or> last_c pFilter \<ge> 0 then
        (if line_count pFilter > 0 \<and> pushback pFilter = 0
         then (1, pFilter\<lparr>pushback := 1\<rparr>)
         else (0, pFilter))
      else (1, pFilter))"

subsection \<open>What one call of the read function does\<close>

text \<open>
  The lemmas of this subsection describe the two blocks of \<^verbatim>\<open>snfilter_read\<close> by the
  shape of the stream in front of them.  \<open>snfilter_deliver\<close> names the statement that
  updates the structure once a character has been read, and \<open>can_read\<close> the guard of
  the second block.
\<close>

lemma uint_byte_not_EOF [simp]: "uint (b :: 8 word) \<noteq> EOF"
  by (simp add: EOF_def) (metis uint_ge_0 not_less  neg_less_0_iff_less zero_less_one)

lemma uint_byte_not_m1 [simp]: "uint (b :: 8 word) \<noteq> - 1"
  using uint_byte_not_EOF[of b] by (simp add: EOF_def)

lemma uint_byte_le: "uint (b :: 8 word) \<le> 255"
  using uint_lt2p[of b] by simp

definition snfilter_deliver :: "SNFILTER \<Rightarrow> int \<Rightarrow> SNFILTER" where
  "snfilter_deliver f ch =
     (if line_count f = 0 then f\<lparr>last_c := ch, line_count := 1\<rparr>
      else if ch = ASCII_LF \<and> line_count f < LONG_MAX
           then f\<lparr>line_count := line_count f + 1, last_c := ch\<rparr>
           else f\<lparr>last_c := ch\<rparr>)"

definition can_read :: "SNFILTER \<Rightarrow> bool" where
  "can_read f = (pushback f = 0 \<and> (line_count f = 0 \<or> 0 \<le> last_c f))"

lemma next_skip: "\<not> can_read f \<Longrightarrow> snfilter_read_next 0 f s = (0, f, s)"
  by (auto simp add: snfilter_read_next_def can_read_def)

lemma next_err: "e \<noteq> 0 \<Longrightarrow> snfilter_read_next e f s = (e, f, s)"
  by (simp add: snfilter_read_next_def)

lemma next_eof: "can_read f \<Longrightarrow> pending s = [] \<Longrightarrow>
   snfilter_read_next 0 f s = (SNERR_EOF, f, s\<lparr>eof_ind := True\<rparr>)"
  by (simp add: snfilter_read_next_def can_read_def getc_def feof_def Let_def EOF_def snerr_defs ascii_defs)

lemma next_fail: "can_read f \<Longrightarrow> pending s = ReadError # r \<Longrightarrow>
   snfilter_read_next 0 f s = ((if eof_ind s then SNERR_EOF else SNERR_IOERR), f, s\<lparr>pending := r\<rparr>)"
  by (simp add: snfilter_read_next_def can_read_def getc_def feof_def Let_def EOF_def snerr_defs ascii_defs)

lemma next_plain: "can_read f \<Longrightarrow> pending s = Byte b # r \<Longrightarrow> uint b \<noteq> ASCII_CR \<Longrightarrow> uint b \<noteq> ASCII_LF \<Longrightarrow>
   snfilter_read_next 0 f s = (0, snfilter_deliver f (uint b), s\<lparr>pending := r\<rparr>)"
  by (simp add: snfilter_read_next_def can_read_def getc_def feof_def Let_def snfilter_deliver_def)

lemma next_nl_eof: "can_read f \<Longrightarrow> pending s = [Byte b] \<Longrightarrow> uint b = ASCII_CR \<or> uint b = ASCII_LF \<Longrightarrow>
   snfilter_read_next 0 f s = (0, snfilter_deliver f ASCII_LF, s\<lparr>pending := [], eof_ind := True\<rparr>)"
  by (auto simp add: snfilter_read_next_def can_read_def getc_def feof_def Let_def snfilter_deliver_def EOF_def ascii_defs)

lemma next_nl_fail: "can_read f \<Longrightarrow> pending s = Byte b # ReadError # r \<Longrightarrow> uint b = ASCII_CR \<or> uint b = ASCII_LF \<Longrightarrow>
   snfilter_read_next 0 f s =
     (if eof_ind s then (0, snfilter_deliver f ASCII_LF, s\<lparr>pending := r\<rparr>)
      else (SNERR_IOERR, f, s\<lparr>pending := r\<rparr>))"
  by (auto simp add: snfilter_read_next_def can_read_def getc_def feof_def Let_def snfilter_deliver_def EOF_def ascii_defs snerr_defs)

lemma next_nl_pair: "can_read f \<Longrightarrow> pending s = Byte b # Byte b2 # r \<Longrightarrow>
   (uint b = ASCII_CR \<and> uint b2 = ASCII_LF) \<or> (uint b = ASCII_LF \<and> uint b2 = ASCII_CR) \<Longrightarrow>
   snfilter_read_next 0 f s = (0, snfilter_deliver f ASCII_LF, s\<lparr>pending := r\<rparr>)"
  by (auto simp add: snfilter_read_next_def can_read_def getc_def feof_def Let_def snfilter_deliver_def EOF_def ascii_defs)

lemma next_nl_single: "can_read f \<Longrightarrow> pending s = Byte b # Byte b2 # r \<Longrightarrow>
   (uint b = ASCII_CR \<and> uint b2 \<noteq> ASCII_LF) \<or> (uint b = ASCII_LF \<and> uint b2 \<noteq> ASCII_CR) \<Longrightarrow>
   snfilter_read_next 0 f s = (0, snfilter_deliver f ASCII_LF, s\<lparr>pending := Byte b2 # r, eof_ind := False\<rparr>)"
  by (elim disjE conjE; simp add: snfilter_read_next_def can_read_def getc_def feof_def ungetc_def Let_def snfilter_deliver_def EOF_def; simp add: ascii_defs)

lemma next_cases:
  assumes "can_read f"
  obtains (err) e s' where "snfilter_read_next 0 f s = (e, f, s')" "e = SNERR_EOF \<or> e = SNERR_IOERR"
      "length (pending s') \<le> length (pending s)"
  | (ok) ch s' where "snfilter_read_next 0 f s = (0, snfilter_deliver f ch, s')"
      "0 \<le> ch" "ch \<le> 255" "ch \<noteq> ASCII_CR" "length (pending s') < length (pending s)"
proof (cases "pending s")
  case Nil
  then show ?thesis using next_eof[OF assms Nil] err[of SNERR_EOF "s\<lparr>eof_ind := True\<rparr>"] by simp
next
  case (Cons ev r)
  show ?thesis
  proof (cases ev)
    case ReadError
    then show ?thesis using next_fail[OF assms, of s r] Cons
        err[of "if eof_ind s then SNERR_EOF else SNERR_IOERR" "s\<lparr>pending := r\<rparr>"] by simp
  next
    case (Byte b)
    show ?thesis
    proof (cases "uint b = ASCII_CR \<or> uint b = ASCII_LF")
      case False
      then have "snfilter_read_next 0 f s = (0, snfilter_deliver f (uint b), s\<lparr>pending := r\<rparr>)"
        using next_plain[OF assms, of s b r] Cons Byte by simp
      then show ?thesis using ok[of "uint b" "s\<lparr>pending := r\<rparr>"] False Cons uint_byte_le[of b] by simp
    next
      case nl: True
      have lf: "0 \<le> ASCII_LF" "ASCII_LF \<le> 255" "ASCII_LF \<noteq> ASCII_CR" by (simp_all add: ascii_defs)
      show ?thesis
      proof (cases r)
        case Nil
        then show ?thesis using next_nl_eof[OF assms, of s b] nl Cons Byte ok[OF _ lf] by simp
      next
        case (Cons ev2 r2)
        note c2 = Cons
        show ?thesis
        proof (cases ev2)
          case ReadError
          then show ?thesis using next_nl_fail[OF assms, of s b r2] nl c2 \<open>pending s = ev # r\<close> Byte
              ok[OF _ lf, of "s\<lparr>pending := r2\<rparr>"] err[of SNERR_IOERR "s\<lparr>pending := r2\<rparr>"]
            by (cases "eof_ind s") simp_all
        next
          case b2: (Byte b2)
          show ?thesis
          proof (cases "(uint b = ASCII_CR \<and> uint b2 = ASCII_LF) \<or> (uint b = ASCII_LF \<and> uint b2 = ASCII_CR)")
            case True
            then show ?thesis using next_nl_pair[OF assms, of s b b2 r2] c2 \<open>pending s = ev # r\<close> Byte b2
                ok[OF _ lf, of "s\<lparr>pending := r2\<rparr>"] by simp
          next
            case False
            then have "(uint b = ASCII_CR \<and> uint b2 \<noteq> ASCII_LF) \<or> (uint b = ASCII_LF \<and> uint b2 \<noteq> ASCII_CR)"
              using nl by auto
            then show ?thesis using next_nl_single[OF assms, of s b b2 r2] c2 \<open>pending s = ev # r\<close> Byte b2
                ok[OF _ lf, of "s\<lparr>pending := Byte b2 # r2, eof_ind := False\<rparr>"] by simp
          qed
        qed
      qed
    qed
  qed
qed

lemma sig_eof: "pending s = [] \<Longrightarrow>
   snfilter_read_signature f s = (SNERR_EOF, f, s\<lparr>eof_ind := True\<rparr>)"
  by (simp add: snfilter_read_signature_def getc_def feof_def ungetc_def Let_def EOF_def snerr_defs bom_defs)

lemma sig_fail: "pending s = ReadError # r \<Longrightarrow>
   snfilter_read_signature f s = ((if eof_ind s then SNERR_EOF else SNERR_IOERR), f, s\<lparr>pending := r\<rparr>)"
  by (simp add: snfilter_read_signature_def getc_def feof_def ungetc_def Let_def EOF_def snerr_defs bom_defs)

lemma sig_plain: "pending s = Byte b # r \<Longrightarrow> uint b \<noteq> SNFILTER_BOM_1 \<Longrightarrow>
   snfilter_read_signature f s = (0, f, s\<lparr>pending := Byte b # r, eof_ind := False\<rparr>)"
  by (simp add: snfilter_read_signature_def getc_def feof_def ungetc_def Let_def EOF_def snerr_defs bom_defs)

lemma sig_bom: "pending s = Byte b1 # Byte b2 # Byte b3 # r \<Longrightarrow> uint b1 = SNFILTER_BOM_1 \<Longrightarrow>
   uint b2 = SNFILTER_BOM_2 \<Longrightarrow> uint b3 = SNFILTER_BOM_3 \<Longrightarrow>
   snfilter_read_signature f s = (0, f\<lparr>bom_present := 1\<rparr>, s\<lparr>pending := r\<rparr>)"
  by (simp add: snfilter_read_signature_def getc_def feof_def ungetc_def Let_def EOF_def snerr_defs bom_defs)

lemma sig_bad2: "pending s = Byte b1 # Byte b2 # r \<Longrightarrow> uint b1 = SNFILTER_BOM_1 \<Longrightarrow>
   uint b2 \<noteq> SNFILTER_BOM_2 \<Longrightarrow>
   snfilter_read_signature f s = (SNERR_BADSIG, f, s\<lparr>pending := r\<rparr>)"
  by (simp add: snfilter_read_signature_def getc_def feof_def ungetc_def Let_def EOF_def snerr_defs bom_defs)

lemma sig_bad3: "pending s = Byte b1 # Byte b2 # Byte b3 # r \<Longrightarrow> uint b1 = SNFILTER_BOM_1 \<Longrightarrow>
   uint b2 = SNFILTER_BOM_2 \<Longrightarrow> uint b3 \<noteq> SNFILTER_BOM_3 \<Longrightarrow>
   snfilter_read_signature f s = (SNERR_BADSIG, f, s\<lparr>pending := r\<rparr>)"
  by (simp add: snfilter_read_signature_def getc_def feof_def ungetc_def Let_def EOF_def snerr_defs bom_defs)

lemma sig_short1: "pending s = [Byte b1] \<Longrightarrow> uint b1 = SNFILTER_BOM_1 \<Longrightarrow>
   snfilter_read_signature f s = (SNERR_BADSIG, f, s\<lparr>pending := [], eof_ind := True\<rparr>)"
  by (simp add: snfilter_read_signature_def getc_def feof_def ungetc_def Let_def EOF_def snerr_defs bom_defs)

lemma sig_short2: "pending s = [Byte b1, Byte b2] \<Longrightarrow> uint b1 = SNFILTER_BOM_1 \<Longrightarrow>
   uint b2 = SNFILTER_BOM_2 \<Longrightarrow>
   snfilter_read_signature f s = (SNERR_BADSIG, f, s\<lparr>pending := [], eof_ind := True\<rparr>)"
  by (simp add: snfilter_read_signature_def getc_def feof_def ungetc_def Let_def EOF_def snerr_defs bom_defs)

lemma signature_cases:
  obtains (err) e s' where "snfilter_read_signature f s = (e, f, s')"
      "e = SNERR_EOF \<or> e = SNERR_IOERR \<or> e = SNERR_BADSIG" "length (pending s') \<le> length (pending s)"
  | (ok) s' where "snfilter_read_signature f s = (0, f, s')" "length (pending s') \<le> length (pending s)"
  | (bom) s' where "snfilter_read_signature f s = (0, f\<lparr>bom_present := 1\<rparr>, s')" "length (pending s') \<le> length (pending s)"
proof -
  obtain e f' s' where r: "snfilter_read_signature f s = (e, f', s')"
    by (metis prod_cases3)
  from r have "length (pending s') \<le> length (pending s) \<and>
     ((f' = f \<and> (e = SNERR_EOF \<or> e = SNERR_IOERR \<or> e = SNERR_BADSIG \<or> e = 0)) \<or> (e = 0 \<and> f' = f\<lparr>bom_present := 1\<rparr>))"
    by (auto simp: snfilter_read_signature_def Let_def feof_def ungetc_def getc_def snerr_defs bom_defs EOF_def
       split: if_splits prod.splits list.splits stdio_event.splits)
  then show ?thesis using r err ok bom by blast
qed

text \<open>
  \<open>stream_measure\<close> bounds the number of characters a filter can still deliver from a
  stream; every call that delivers a character makes it smaller.  The loops of the
  readers terminate by it.
\<close>

definition stream_measure :: "SNFILTER \<Rightarrow> FILE \<Rightarrow> nat" where
  "stream_measure f s = 2 * length (pending s) + (if pushback f \<noteq> 0 then 1 else 0)"

lemma can_read_bom [simp]: "can_read (f\<lparr>bom_present := v\<rparr>) = can_read f"
  by (simp add: can_read_def)

lemma deliver_fields [simp]:
  "last_c (snfilter_deliver f ch) = ch"
  "pushback (snfilter_deliver f ch) = pushback f"
  "bom_present (snfilter_deliver f ch) = bom_present f"
  by (simp_all add: snfilter_deliver_def)

lemma deliver_line_count:
  "0 \<le> line_count f \<Longrightarrow> 0 < line_count (snfilter_deliver f ch)"
  "line_count f \<le> line_count (snfilter_deliver f ch)"
  by (simp_all add: snfilter_deliver_def)

lemma snfilter_read_unfold:
  "snfilter_read f s =
     (case (if line_count f = 0 then snfilter_read_signature f s else (0, f, s)) of
        (e, f1, s1) \<Rightarrow>
          (case snfilter_read_next e f1 s1 of
             (e', f2, s2) \<Rightarrow>
               (if e' \<noteq> 0 then (e', f2\<lparr>pushback := 0, last_c := e'\<rparr>, s2)
                else (last_c f2, f2\<lparr>pushback := 0\<rparr>, s2))))"
  by (simp add: snfilter_read_def Let_def split: prod.splits)

lemma snfilter_read_started:
  "line_count f \<noteq> 0 \<Longrightarrow>
   snfilter_read f s =
     (case snfilter_read_next 0 f s of
        (e', f2, s2) \<Rightarrow>
          (if e' \<noteq> 0 then (e', f2\<lparr>pushback := 0, last_c := e'\<rparr>, s2)
           else (last_c f2, f2\<lparr>pushback := 0\<rparr>, s2)))"
  by (simp add: snfilter_read_unfold)

lemma snfilter_read_cases:
  obtains (quiet) f' s' where "\<not> can_read f" "snfilter_read f s = (last_c f, f', s')"
      "last_c f' = last_c f" "line_count f' = line_count f" "pushback f' = 0"
      "length (pending s') \<le> length (pending s)"
  | (err) e f' s' where "snfilter_read f s = (e, f', s')"
      "e = SNERR_EOF \<or> e = SNERR_IOERR \<or> e = SNERR_BADSIG"
      "last_c f' = e" "line_count f' = line_count f" "pushback f' = 0"
      "length (pending s') \<le> length (pending s)"
  | (char) ch f' s' where "can_read f" "snfilter_read f s = (ch, f', s')"
      "0 \<le> ch" "ch \<le> 255" "ch \<noteq> ASCII_CR"
      "last_c f' = ch" "line_count f' = line_count (snfilter_deliver f ch)" "pushback f' = 0"
      "length (pending s') < length (pending s)"
proof -
  note outer = quiet err char
  have step2: thesis
    if sg: "(if line_count f = 0 then snfilter_read_signature f s else (0, f, s)) = (0, f1, s1)"
      and f1: "f1 = f \<or> f1 = f\<lparr>bom_present := 1\<rparr>"
      and len: "length (pending s1) \<le> length (pending s)" for f1 s1
  proof (cases "can_read f")
    case False
    then have "\<not> can_read f1" using f1 by auto
    then have "snfilter_read f s = (last_c f1, f1\<lparr>pushback := 0\<rparr>, s1)"
      using sg by (simp add: snfilter_read_unfold next_skip)
    then show thesis using outer(1)[of "f1\<lparr>pushback := 0\<rparr>" s1] False f1 len by auto
  next
    case True
    then have cr: "can_read f1" using f1 by auto
    show thesis
    proof (cases rule: next_cases[OF cr, where s = s1])
      case (1 e s')
      then have "snfilter_read f s = (e, f1\<lparr>pushback := 0, last_c := e\<rparr>, s')"
        using sg by (auto simp add: snfilter_read_unfold snerr_defs)
      then show ?thesis using outer(2)[of e "f1\<lparr>pushback := 0, last_c := e\<rparr>" s'] 1 f1 len by auto
    next
      case (2 ch s')
      then have "snfilter_read f s = (ch, (snfilter_deliver f1 ch)\<lparr>pushback := 0\<rparr>, s')"
        using sg by (simp add: snfilter_read_unfold)
      moreover have "line_count (snfilter_deliver f1 ch) = line_count (snfilter_deliver f ch)"
        using f1 by (auto simp: snfilter_deliver_def)
      ultimately show ?thesis using outer(3)[of ch "(snfilter_deliver f1 ch)\<lparr>pushback := 0\<rparr>" s'] 2 True len by auto
    qed
  qed
  show thesis
  proof (cases "line_count f = 0")
    case False
    then show ?thesis using step2[of f s] by simp
  next
    case True
    show ?thesis
    proof (cases f s rule: signature_cases)
      case (err e s')
      then have "snfilter_read f s = (e, f\<lparr>pushback := 0, last_c := e\<rparr>, s')"
        using True by (auto simp add: snfilter_read_unfold next_err snerr_defs)
      then show ?thesis using err True outer(2)[of e "f\<lparr>pushback := 0, last_c := e\<rparr>" s'] by simp
    next
      case (ok s')
      then show ?thesis using step2[of f s'] True by simp
    next
      case (bom s')
      then show ?thesis using step2[of "f\<lparr>bom_present := 1\<rparr>" s'] True by simp
    qed
  qed
qed


lemma snfilter_read_measure:
  assumes "snfilter_read f s = (ch, f', s')" and "0 \<le> ch"
  shows "stream_measure f' s' < stream_measure f s"
proof (cases f s rule: snfilter_read_cases)
  case (quiet f'' s'')
  then have "pushback f \<noteq> 0" using assms by (auto simp: can_read_def)
  then show ?thesis using quiet assms by (simp add: stream_measure_def)
next
  case (err e f'' s'')
  then show ?thesis using assms by (auto simp: snerr_defs)
next
  case (char c f'' s'')
  then show ?thesis using assms by (simp add: stream_measure_def can_read_def)
qed

subsection \<open>Filter states that calls can produce\<close>

text \<open>
  \<open>snfilter_reachable\<close> holds of the filter structures that a caller can hold: the
  reset structure and what \<^verbatim>\<open>snfilter_read\<close> (on any stream) and
  \<^verbatim>\<open>snfilter_pushback\<close> make of one.  \<open>snfilter_inv\<close> is an invariant of them.
\<close>

inductive snfilter_reachable :: "SNFILTER \<Rightarrow> bool" where
  reach_reset: "snfilter_reachable snfilter_reset"
| reach_read: "snfilter_reachable f \<Longrightarrow> snfilter_reachable (fst (snd (snfilter_read f s)))"
| reach_pushback: "snfilter_reachable f \<Longrightarrow> snfilter_reachable (snd (snfilter_pushback f))"

definition snfilter_inv :: "SNFILTER \<Rightarrow> bool" where
  "snfilter_inv f =
     (0 \<le> line_count f \<and> - 3 \<le> last_c f \<and> last_c f \<le> 255 \<and> last_c f \<noteq> ASCII_CR \<and>
      (pushback f = 0 \<or> pushback f = 1 \<and> 0 < line_count f \<and> 0 \<le> last_c f))"

lemma snfilter_inv_reset: "snfilter_inv snfilter_reset"
  by (simp add: snfilter_inv_def snfilter_reset_def ascii_defs)

lemma snfilter_inv_read:
  assumes "snfilter_inv f"
  shows "snfilter_inv (fst (snd (snfilter_read f s)))"
proof (cases f s rule: snfilter_read_cases)
  case (quiet f' s')
  then show ?thesis using assms by (simp add: snfilter_inv_def)
next
  case (err e f' s')
  then show ?thesis using assms by (auto simp add: snfilter_inv_def snerr_defs ascii_defs)
next
  case (char ch f' s')
  then show ?thesis using assms deliver_line_count(1)[of f ch] by (simp add: snfilter_inv_def)
qed

lemma snfilter_inv_pushback:
  "snfilter_inv f \<Longrightarrow> snfilter_inv (snd (snfilter_pushback f))"
  by (auto simp add: snfilter_inv_def snfilter_pushback_def)

lemma snfilter_reachable_inv: "snfilter_reachable f \<Longrightarrow> snfilter_inv f"
  by (induction rule: snfilter_reachable.induct)
     (simp_all add: snfilter_inv_reset snfilter_inv_read snfilter_inv_pushback)

lemma snfilter_read_result: "fst (snfilter_read f s) = last_c (fst (snd (snfilter_read f s)))"
  by (simp add: snfilter_read_def Let_def split: prod.splits)

lemma uint_is_CR: "(uint (b :: 8 word) = ASCII_CR) = (b = 0x0D)"
  by (simp add: word_uint_eq_iff ASCII_CR_def)
lemma uint_is_LF: "(uint (b :: 8 word) = ASCII_LF) = (b = 0x0A)"
  by (simp add: word_uint_eq_iff ASCII_LF_def)
lemma uint_is_BOM1: "(uint (b :: 8 word) = SNFILTER_BOM_1) = (b = 0xEF)"
  by (simp add: word_uint_eq_iff bom_defs)

subsection \<open>The characters a filter delivers from a stream\<close>

lemma snfilter_read_decreases:
  "(ch, f', s') = snfilter_read f s \<Longrightarrow> \<not> ch < 0 \<Longrightarrow> stream_measure f' s' < stream_measure f s"
  using snfilter_read_measure[of f s ch f' s'] by simp

text \<open>
  \<open>snfilter_drain\<close> is the observation the claims about the delivered characters are
  stated on: the results of successive calls of \<^verbatim>\<open>snfilter_read\<close>, up to the first
  negative one.
\<close>

function snfilter_drain :: "SNFILTER \<Rightarrow> FILE \<Rightarrow> int list" where
  "snfilter_drain pFilter pIn =
     (case snfilter_read pFilter pIn of
        (c, pFilter', pIn') \<Rightarrow> if c < 0 then [] else c # snfilter_drain pFilter' pIn')"
  by pat_completeness auto
termination
  by (relation "measure (\<lambda>(f, s). stream_measure f s)") (auto intro: snfilter_read_decreases)

declare snfilter_drain.simps [simp del]

text \<open>
  The specification of the line endings, in its own words: bare CR, bare LF, CR LF and
  LF CR each become one LF, the pair being taken when there is one; every other byte
  stays.
\<close>

fun newline_norm :: "8 word list \<Rightarrow> 8 word list" where
  "newline_norm [] = []"
| "newline_norm [b] = (if b = 0x0D \<or> b = 0x0A then [0x0A] else [b])"
| "newline_norm (b # b2 # bs) =
     (if (b = 0x0D \<and> b2 = 0x0A) \<or> (b = 0x0A \<and> b2 = 0x0D) then 0x0A # newline_norm bs
      else if b = 0x0D \<or> b = 0x0A then 0x0A # newline_norm (b2 # bs)
      else b # newline_norm (b2 # bs))"


definition ready :: "SNFILTER \<Rightarrow> bool" where
  "ready f = (can_read f \<and> 0 < line_count f)"

lemma ready_after [simp]: "0 \<le> ch \<Longrightarrow> 0 \<le> line_count f \<Longrightarrow> ready ((snfilter_deliver f ch)\<lparr>pushback := 0\<rparr>)"
  using deliver_line_count(1)[of f ch] by (simp add: ready_def can_read_def)

lemma read_via_next:
  assumes "can_read f" and "0 \<le> line_count f"
    and "line_count f = 0 \<Longrightarrow> \<exists>b r. pending s = Byte b # r \<and> uint b \<noteq> SNFILTER_BOM_1"
  shows "\<exists>s0. pending s0 = pending s \<and>
           snfilter_read f s =
             (case snfilter_read_next 0 f s0 of
                (e', f2, s2) \<Rightarrow>
                  (if e' \<noteq> 0 then (e', f2\<lparr>pushback := 0, last_c := e'\<rparr>, s2)
                   else (last_c f2, f2\<lparr>pushback := 0\<rparr>, s2)))"
proof (cases "line_count f = 0")
  case False
  then show ?thesis using snfilter_read_started[of f s] by blast
next
  case True
  then obtain b r where p: "pending s = Byte b # r" "uint b \<noteq> SNFILTER_BOM_1"
    using assms(3) by blast
  have "snfilter_read_signature f s = (0, f, s\<lparr>pending := Byte b # r, eof_ind := False\<rparr>)"
    using sig_plain[OF p] .
  then have "snfilter_read f s =
             (case snfilter_read_next 0 f (s\<lparr>pending := Byte b # r, eof_ind := False\<rparr>) of
                (e', f2, s2) \<Rightarrow>
                  (if e' \<noteq> 0 then (e', f2\<lparr>pushback := 0, last_c := e'\<rparr>, s2)
                   else (last_c f2, f2\<lparr>pushback := 0\<rparr>, s2)))"
    using True by (simp add: snfilter_read_unfold)
  then show ?thesis using p(1) by (intro exI[of _ "s\<lparr>pending := Byte b # r, eof_ind := False\<rparr>"]) simp
qed

lemma drain_at_end:
  assumes "can_read f" and "pending s = []"
  shows "snfilter_drain f s = []"
proof -
  have "fst (snfilter_read f s) < 0"
  proof (cases "line_count f = 0")
    case True
    then show ?thesis using sig_eof[OF assms(2), of f]
      by (simp add: snfilter_read_unfold next_err snerr_defs)
  next
    case False
    then show ?thesis using next_eof[OF assms]
      by (simp add: snfilter_read_started snerr_defs)
  qed
  then show ?thesis by (subst snfilter_drain.simps) (auto split: prod.splits)
qed

lemma drain_step:
  assumes "snfilter_read f s = (ch, f', s')" and "0 \<le> ch"
  shows "snfilter_drain f s = ch # snfilter_drain f' s'"
  using assms by (subst snfilter_drain.simps) simp

lemma next_bytes:
  assumes cr: "can_read f" and s0: "pending s0 = map Byte bs" and ne: "bs \<noteq> []"
  obtains ch rest s2 where "snfilter_read_next 0 f s0 = (0, snfilter_deliver f ch, s2)"
    "pending s2 = map Byte rest" "map uint (newline_norm bs) = ch # map uint (newline_norm rest)"
    "length rest < length bs" "0 \<le> ch"
proof (cases bs rule: newline_norm.cases)
  case 1
  then show ?thesis using ne by simp
next
  case (2 b)
  then have p: "pending s0 = [Byte b]" using s0 by simp
  show ?thesis
  proof (cases "b = 0x0D \<or> b = 0x0A")
    case True
    then have nl: "uint b = ASCII_CR \<or> uint b = ASCII_LF" by (simp add: uint_is_CR uint_is_LF)
    show ?thesis
      using that[of ASCII_LF "s0\<lparr>pending := [], eof_ind := True\<rparr>" "[]"] next_nl_eof[OF cr p nl] True 2
      by (simp add: ascii_defs)
  next
    case False
    then have nl: "uint b \<noteq> ASCII_CR" "uint b \<noteq> ASCII_LF" by (simp_all add: uint_is_CR uint_is_LF)
    show ?thesis
      using that[of "uint b" "s0\<lparr>pending := []\<rparr>" "[]"] next_plain[OF cr p nl] False 2
      by simp
  qed
next
  case (3 b b2 r)
  then have p: "pending s0 = Byte b # Byte b2 # map Byte r" using s0 by simp
  show ?thesis
  proof (cases "(b = 0x0D \<and> b2 = 0x0A) \<or> (b = 0x0A \<and> b2 = 0x0D)")
    case True
    then have pr: "(uint b = ASCII_CR \<and> uint b2 = ASCII_LF) \<or> (uint b = ASCII_LF \<and> uint b2 = ASCII_CR)"
      by (simp add: uint_is_CR uint_is_LF)
    show ?thesis
      using that[of ASCII_LF "s0\<lparr>pending := map Byte r\<rparr>" r] next_nl_pair[OF cr p pr] True 3
      by (simp add: ascii_defs)
  next
    case np: False
    show ?thesis
    proof (cases "b = 0x0D \<or> b = 0x0A")
      case True
      then have sg: "(uint b = ASCII_CR \<and> uint b2 \<noteq> ASCII_LF) \<or> (uint b = ASCII_LF \<and> uint b2 \<noteq> ASCII_CR)"
        using np by (auto simp add: uint_is_CR uint_is_LF)
      show ?thesis
        using that[of ASCII_LF "s0\<lparr>pending := Byte b2 # map Byte r, eof_ind := False\<rparr>" "b2 # r"]
          next_nl_single[OF cr p sg] True np 3
        by (auto simp add: ascii_defs)
    next
      case False
      then have nl: "uint b \<noteq> ASCII_CR" "uint b \<noteq> ASCII_LF" by (simp_all add: uint_is_CR uint_is_LF)
      show ?thesis
        using that[of "uint b" "s0\<lparr>pending := Byte b2 # map Byte r\<rparr>" "b2 # r"]
          next_plain[OF cr p nl] False np 3
        by simp
    qed
  qed
qed

lemma drain_bytes_started:
  assumes "can_read f" and "0 < line_count f" and "pending s = map Byte bs"
  shows "snfilter_drain f s = map uint (newline_norm bs)"
  using assms
proof (induction bs arbitrary: f s rule: length_induct)
  case (1 bs)
  show ?case
  proof (cases "bs = []")
    case True
    then show ?thesis using 1(2,4) by (simp add: drain_at_end)
  next
    case False
    obtain ch rest s2 where st: "snfilter_read_next 0 f s = (0, snfilter_deliver f ch, s2)"
      "pending s2 = map Byte rest" "map uint (newline_norm bs) = ch # map uint (newline_norm rest)"
      "length rest < length bs" "0 \<le> ch"
      using next_bytes[OF 1(2) 1(4) False] by metis
    let ?f' = "(snfilter_deliver f ch)\<lparr>pushback := 0\<rparr>"
    have "snfilter_read f s = (ch, ?f', s2)"
      using st(1) 1(3) by (simp add: snfilter_read_started)
    then have "snfilter_drain f s = ch # snfilter_drain ?f' s2"
      using st(5) by (rule drain_step)
    moreover have "ready ?f'" using st(5) 1(3) by simp
    then have "snfilter_drain ?f' s2 = map uint (newline_norm rest)"
      using 1(1) st(2,4) by (simp add: ready_def)
    ultimately show ?thesis using st(3) by simp
  qed
qed

lemma drain_after_signature:
  assumes sg: "snfilter_read_signature f s = (0, f1, s1)" and lc: "line_count f = 0"
    and f1: "line_count f1 = 0" "pushback f1 = 0" and s1: "pending s1 = map Byte bs"
  shows "snfilter_drain f s = map uint (newline_norm bs)"
proof -
  have cr: "can_read f1" using f1 by (simp add: can_read_def)
  have rd: "snfilter_read f s =
             (case snfilter_read_next 0 f1 s1 of
                (e', f2, s2) \<Rightarrow>
                  (if e' \<noteq> 0 then (e', f2\<lparr>pushback := 0, last_c := e'\<rparr>, s2)
                   else (last_c f2, f2\<lparr>pushback := 0\<rparr>, s2)))"
    using lc sg by (simp add: snfilter_read_unfold)
  show ?thesis
  proof (cases "bs = []")
    case True
    then have "fst (snfilter_read f s) < 0"
      using rd next_eof[OF cr, of s1] s1 by (simp add: snerr_defs)
    then show ?thesis using True by (subst snfilter_drain.simps) (auto split: prod.splits)
  next
    case False
    obtain ch rest s2 where st: "snfilter_read_next 0 f1 s1 = (0, snfilter_deliver f1 ch, s2)"
      "pending s2 = map Byte rest" "map uint (newline_norm bs) = ch # map uint (newline_norm rest)"
      "length rest < length bs" "0 \<le> ch"
      using next_bytes[OF cr s1 False] by metis
    let ?f' = "(snfilter_deliver f1 ch)\<lparr>pushback := 0\<rparr>"
    have "snfilter_read f s = (ch, ?f', s2)"
      using st(1) rd by simp
    then have "snfilter_drain f s = ch # snfilter_drain ?f' s2"
      using st(5) by (rule drain_step)
    moreover have "ready ?f'" using st(5) f1 by simp
    then have "snfilter_drain ?f' s2 = map uint (newline_norm rest)"
      using st(2) by (intro drain_bytes_started) (simp_all add: ready_def)
    ultimately show ?thesis using st(3) by simp
  qed
qed

text \<open>
  What the specification expects of a whole stream read through a fresh filter: a byte
  order mark in front is left out, a first byte EF that does not start one delivers
  nothing (the first read is the bad-signature error), and the line endings are
  normalised.
\<close>

definition snfilter_expected :: "8 word list \<Rightarrow> 8 word list" where
  "snfilter_expected bs =
     (if take 3 bs = [0xEF, 0xBB, 0xBF] then newline_norm (drop 3 bs)
      else if bs \<noteq> [] \<and> hd bs = 0xEF then []
      else newline_norm bs)"

lemma drain_reset:
  "snfilter_drain snfilter_reset (fopen bs) = map uint (snfilter_expected bs)"
proof -
  let ?f = snfilter_reset and ?s = "fopen bs"
  have f: "line_count ?f = 0" "pushback ?f = 0" by (simp_all add: snfilter_reset_def)
  have p: "pending ?s = map Byte bs" by (simp add: fopen_def)
  consider (empty) "bs = []" | (plain) "bs \<noteq> []" "hd bs \<noteq> 0xEF"
    | (bom) "take 3 bs = [0xEF, 0xBB, 0xBF]"
    | (bad) "bs \<noteq> []" "hd bs = 0xEF" "take 3 bs \<noteq> [0xEF, 0xBB, 0xBF]"
    by blast
  then show ?thesis
  proof cases
    case empty
    then show ?thesis using drain_at_end[of ?f ?s] f p
      by (simp add: can_read_def snfilter_expected_def)
  next
    case plain0: plain
    then obtain b r where plain: "bs = b # r" "b \<noteq> 0xEF" by (auto simp: neq_Nil_conv)
    then have "snfilter_read_signature ?f ?s = (0, ?f, ?s\<lparr>pending := Byte b # map Byte r, eof_ind := False\<rparr>)"
      using p sig_plain[of ?s b "map Byte r" ?f] by (simp add: uint_is_BOM1)
    then show ?thesis using drain_after_signature[OF _ f(1) f, of ?s _ bs] plain
      by (simp add: snfilter_expected_def)
  next
    case bom0: bom
    then have "bs = 0xEF # 0xBB # 0xBF # drop 3 bs"
      by (metis append_take_drop_id append_Cons append_Nil)
    then obtain r where bom: "bs = 0xEF # 0xBB # 0xBF # r" by blast
    then have "snfilter_read_signature ?f ?s = (0, ?f\<lparr>bom_present := 1\<rparr>, ?s\<lparr>pending := map Byte r\<rparr>)"
      using p sig_bom[of ?s "0xEF" "0xBB" "0xBF" "map Byte r" ?f] by (simp add: bom_defs)
    then show ?thesis using drain_after_signature[OF _ f(1), of ?s _ _ r] f bom
      by (simp add: snfilter_expected_def)
  next
    case bad
    have "\<exists>s'. snfilter_read_signature ?f ?s = (SNERR_BADSIG, ?f, s')"
    proof (cases bs rule: newline_norm.cases)
      case 1 then show ?thesis using bad by simp
    next
      case (2 b) then show ?thesis using bad p sig_short1[of ?s b ?f] by (simp add: bom_defs)
    next
      case (3 b b2 r)
      show ?thesis
      proof (cases "b2 = 0xBB")
        case False
        then show ?thesis using 3 bad p sig_bad2[of ?s b b2 "map Byte r" ?f] by (simp add: bom_defs word_uint_eq_iff)
      next
        case True
        show ?thesis
        proof (cases r)
          case Nil
          then show ?thesis using True 3 bad p sig_short2[of ?s b b2 ?f] by (simp add: bom_defs)
        next
          case (Cons b3 r3)
          then show ?thesis using True 3 bad p sig_bad3[of ?s b b2 b3 "map Byte r3" ?f] by (simp add: bom_defs word_uint_eq_iff)
        qed
      qed
    qed
    then obtain s' where "snfilter_read_signature ?f ?s = (SNERR_BADSIG, ?f, s')" by blast
    then have "fst (snfilter_read ?f ?s) < 0"
      using f by (simp add: snfilter_read_unfold next_err snerr_defs)
    then have "snfilter_drain ?f ?s = []" by (subst snfilter_drain.simps) (auto split: prod.splits)
    then show ?thesis using bad by (simp add: snfilter_expected_def)
  qed
qed

lemma newline_norm_no_CR: "0x0D \<notin> set (newline_norm bs)"
  by (induction bs rule: newline_norm.induct) auto

section \<open>The string buffer of shastina.c\<close>

text \<open>
  The structure \<^verbatim>\<open>SNBUFFER\<close>.  The allocated memory is the list \<open>pBuf\<close> of
  \<open>cap\<close> bytes (empty while nothing is allocated).  \<^verbatim>\<open>malloc\<close> and
  \<^verbatim>\<open>realloc\<close> are taken to succeed; the source aborts when they do not.  A function
  that can call \<^verbatim>\<open>abort\<close> returns an option, \<open>None\<close> standing for the abort.
\<close>

record SNBUFFER =
  pBuf :: "8 word list"
  count :: int
  cap :: int
  initcap :: int
  maxcap :: int

definition snbuffer_init :: "int \<Rightarrow> int \<Rightarrow> SNBUFFER option" where
  "snbuffer_init icap mcap =
     (if icap \<le> 0 \<or> mcap < icap \<or> mcap > LONG_MAX div 2 then None
      else if mcap > 2147483647 then None
      else Some \<lparr>pBuf = [], count = 0, cap = 0, initcap = icap, maxcap = mcap\<rparr>)"

definition snbuffer_reset :: "SNBUFFER \<Rightarrow> int \<Rightarrow> SNBUFFER" where
  "snbuffer_reset pBuffer full =
     (let pBuffer = pBuffer\<lparr>count := 0\<rparr>;
          pBuffer = (if cap pBuffer > 0
                     then pBuffer\<lparr>pBuf := replicate (nat (cap pBuffer)) 0\<rparr> else pBuffer)
      in if full \<noteq> 0 \<and> cap pBuffer > 0 then pBuffer\<lparr>pBuf := [], cap := 0\<rparr> else pBuffer)"

definition snbuffer_append :: "SNBUFFER \<Rightarrow> int \<Rightarrow> (int \<times> SNBUFFER) option" where
  "snbuffer_append pBuffer c =
     (if c < 1 \<or> c > 255 then None
      else if count pBuffer < maxcap pBuffer - 1 then
        (let pBuffer =
               (if cap pBuffer < 1
                then pBuffer\<lparr>pBuf := replicate (nat (initcap pBuffer)) 0,
                              cap := initcap pBuffer\<rparr>
                else pBuffer);
             pBuffer =
               (if count pBuffer \<ge> cap pBuffer - 1 then
                  (let newcap = cap pBuffer * 2;
                       newcap = (if newcap > maxcap pBuffer then maxcap pBuffer else newcap)
                   in pBuffer\<lparr>pBuf := take (nat newcap) (pBuf pBuffer) @
                                          replicate (nat (newcap - cap pBuffer)) 0,
                                cap := newcap\<rparr>)
                else pBuffer)
         in Some (1, pBuffer\<lparr>pBuf := (pBuf pBuffer)[nat (count pBuffer) := word_of_int c],
                               count := count pBuffer + 1\<rparr>))
      else Some (0, pBuffer))"

definition snbuffer_count :: "SNBUFFER \<Rightarrow> int" where
  "snbuffer_count pBuffer = count pBuffer"

text \<open>
  \<open>snbuffer_data\<close> is the string a buffer holds, and \<open>snbuffer_ok\<close> the
  invariant of a buffer made by \<^verbatim>\<open>snbuffer_init\<close> and used through the functions
  above.
\<close>

definition snbuffer_data :: "SNBUFFER \<Rightarrow> 8 word list" where
  "snbuffer_data pBuffer = take (nat (count pBuffer)) (pBuf pBuffer)"

definition snbuffer_ok :: "SNBUFFER \<Rightarrow> bool" where
  "snbuffer_ok b =
     (0 < initcap b \<and> initcap b \<le> maxcap b \<and> 0 \<le> count b \<and> length (pBuf b) = nat (cap b) \<and>
      (if cap b = 0 then count b = 0 else 0 < cap b \<and> cap b \<le> maxcap b \<and> count b < cap b))"

lemma snbuffer_append_ok:
  assumes ok: "snbuffer_ok b" and ch: "1 \<le> ch" "ch \<le> 255" and room: "count b < maxcap b - 1"
  shows "\<exists>b'. snbuffer_append b ch = Some (1, b') \<and> snbuffer_ok b' \<and>
           snbuffer_data b' = snbuffer_data b @ [word_of_int ch] \<and>
           count b' = count b + 1 \<and> maxcap b' = maxcap b"
proof -
  define b1 where "b1 = (if cap b < 1
                then b\<lparr>pBuf := replicate (nat (initcap b)) 0, cap := initcap b\<rparr>
                else b)"
  define newcap where "newcap = (if cap b1 * 2 > maxcap b1 then maxcap b1 else cap b1 * 2)"
  define b2 where "b2 = (if count b1 \<ge> cap b1 - 1
       then b1\<lparr>pBuf := take (nat newcap) (pBuf b1) @ replicate (nat (newcap - cap b1)) 0,
                 cap := newcap\<rparr>
       else b1)"
  define b' where "b' = b2\<lparr>pBuf := (pBuf b2)[nat (count b2) := word_of_int ch],
                               count := count b2 + 1\<rparr>"
  have app: "snbuffer_append b ch = Some (1, b')"
    using ch room by (simp add: snbuffer_append_def Let_def b1_def b2_def b'_def newcap_def)
  have f1: "count b1 = count b" "maxcap b1 = maxcap b" "initcap b1 = initcap b"
    "0 < cap b1" "cap b1 \<le> maxcap b" "count b1 < cap b1" "length (pBuf b1) = nat (cap b1)"
    "take (nat (count b)) (pBuf b1) = take (nat (count b)) (pBuf b)"
    using ok by (auto simp: b1_def snbuffer_ok_def split: if_splits)
  have nc: "count b1 \<ge> cap b1 - 1 \<Longrightarrow> cap b1 < newcap \<and> newcap \<le> maxcap b"
    using f1 room by (auto simp: newcap_def)
  have f2: "count b2 = count b" "maxcap b2 = maxcap b" "initcap b2 = initcap b"
    "0 < cap b2" "cap b2 \<le> maxcap b" "count b2 + 1 < cap b2" "length (pBuf b2) = nat (cap b2)"
    "take (nat (count b)) (pBuf b2) = take (nat (count b)) (pBuf b)"
    using f1 nc unfolding b2_def by (auto split: if_splits)
  have len: "nat (count b) < length (pBuf b2)" using f2 ok by (simp add: snbuffer_ok_def)
  have "take (nat (count b + 1)) ((pBuf b2)[nat (count b) := word_of_int ch]) =
        take (nat (count b)) (pBuf b2) @ [word_of_int ch]"
    using len ok by (simp add: snbuffer_ok_def nat_add_distrib take_Suc_conv_app_nth)
  then have "snbuffer_data b' = snbuffer_data b @ [word_of_int ch]"
    using f2 by (simp add: snbuffer_data_def b'_def)
  moreover have "snbuffer_ok b'"
    using f2 ok by (simp add: snbuffer_ok_def b'_def)
  moreover have "count b' = count b + 1" "maxcap b' = maxcap b"
    using f2 by (simp_all add: b'_def)
  ultimately show ?thesis using app by blast
qed

section \<open>The string readers of shastina.c\<close>

text \<open>
  The loop of \<^verbatim>\<open>snstr_readQuoted\<close>, with the local \<^verbatim>\<open>esc_flag\<close> as an argument.
  The result is the value of \<^verbatim>\<open>err_num\<close> (zero for success) with the buffer, the
  stream and the filter at the return, or \<open>None\<close> when \<^verbatim>\<open>snbuffer_append\<close>
  aborts.
\<close>

function snstr_readQuoted_loop ::
  "int \<Rightarrow> SNBUFFER \<Rightarrow> FILE \<Rightarrow> SNFILTER \<Rightarrow> (int \<times> SNBUFFER \<times> FILE \<times> SNFILTER) option" where
  "snstr_readQuoted_loop esc_flag pBuffer pIn pFilter =
     (case snfilter_read pFilter pIn of
        (c, pFilter', pIn') \<Rightarrow>
          (let err_num = (if c < 0 then (if c = SNERR_EOF then SNERR_OPENSTR else c) else 0)
           in if err_num = 0 \<and> esc_flag = 0 \<and> c = ASCII_DQUOTE
              then Some (err_num, pBuffer, pIn', pFilter')
              else
                (let esc_flag' = (if err_num = 0 \<and> c = ASCII_BACKSLASH then 1 else 0);
                     err_num = (if err_num = 0 \<and> c = 0 then SNERR_NULLCHR else err_num)
                 in if err_num = 0 then
                      (case snbuffer_append pBuffer c of
                         None \<Rightarrow> None
                       | Some (ok, pBuffer') \<Rightarrow>
                           if ok = 0 then Some (SNERR_LONGSTR, pBuffer', pIn', pFilter')
                           else snstr_readQuoted_loop esc_flag' pBuffer' pIn' pFilter')
                    else Some (err_num, pBuffer, pIn', pFilter'))))"
  by pat_completeness auto
termination
  by (relation "measure (\<lambda>(e, b, s, f). stream_measure f s)")
     (auto intro: snfilter_read_decreases simp: snerr_defs split: if_splits)

declare snstr_readQuoted_loop.simps [simp del]

definition snstr_readQuoted ::
  "SNBUFFER \<Rightarrow> FILE \<Rightarrow> SNFILTER \<Rightarrow> (int \<times> SNBUFFER \<times> FILE \<times> SNFILTER) option" where
  "snstr_readQuoted pBuffer pIn pFilter =
     snstr_readQuoted_loop 0 (snbuffer_reset pBuffer 0) pIn pFilter"


text \<open>
  The loop of \<^verbatim>\<open>snstr_readCurlied\<close>, with the locals \<^verbatim>\<open>esc_flag\<close> and
  \<^verbatim>\<open>nest_level\<close> as arguments.
\<close>

function snstr_readCurlied_loop ::
  "int \<Rightarrow> int \<Rightarrow> SNBUFFER \<Rightarrow> FILE \<Rightarrow> SNFILTER \<Rightarrow>
     (int \<times> SNBUFFER \<times> FILE \<times> SNFILTER) option" where
  "snstr_readCurlied_loop esc_flag nest_level pBuffer pIn pFilter =
     (case snfilter_read pFilter pIn of
        (c, pFilter', pIn') \<Rightarrow>
          (let err_num = (if c < 0 then (if c = SNERR_EOF then SNERR_OPENSTR else c) else 0);
               (nest_level', err_num) =
                 (if err_num = 0 \<and> esc_flag = 0 then
                    (if c = ASCII_LCURL then
                       (if nest_level < LONG_MAX then (nest_level + 1, err_num)
                        else (nest_level, SNERR_DEEPCURLY))
                     else if c = ASCII_RCURL then (nest_level - 1, err_num)
                     else (nest_level, err_num))
                  else (nest_level, err_num))
           in if err_num = 0 \<and> nest_level' < 1
              then Some (err_num, pBuffer, pIn', pFilter')
              else
                (let esc_flag' = (if err_num = 0 \<and> c = ASCII_BACKSLASH then 1 else 0);
                     err_num = (if err_num = 0 \<and> c = 0 then SNERR_NULLCHR else err_num)
                 in if err_num = 0 then
                      (case snbuffer_append pBuffer c of
                         None \<Rightarrow> None
                       | Some (ok, pBuffer') \<Rightarrow>
                           if ok = 0 then Some (SNERR_LONGSTR, pBuffer', pIn', pFilter')
                           else snstr_readCurlied_loop esc_flag' nest_level' pBuffer' pIn' pFilter')
                    else Some (err_num, pBuffer, pIn', pFilter'))))"
  by pat_completeness auto
termination
  by (relation "measure (\<lambda>(e, n, b, s, f). stream_measure f s)")
     (auto intro: snfilter_read_decreases simp: snerr_defs split: if_splits)

declare snstr_readCurlied_loop.simps [simp del]

definition snstr_readCurlied ::
  "SNBUFFER \<Rightarrow> FILE \<Rightarrow> SNFILTER \<Rightarrow> (int \<times> SNBUFFER \<times> FILE \<times> SNFILTER) option" where
  "snstr_readCurlied pBuffer pIn pFilter =
     snstr_readCurlied_loop 0 1 (snbuffer_reset pBuffer 0) pIn pFilter"

lemma snbuffer_append_in_range:
  "1 \<le> ch \<Longrightarrow> ch \<le> 255 \<Longrightarrow> snbuffer_append b ch \<noteq> None"
  by (simp add: snbuffer_append_def Let_def)

lemma snfilter_read_inv_result:
  assumes "snfilter_inv f" and "snfilter_read f s = (ch, f', s')"
  shows "snfilter_inv f'" and "ch \<le> 255"
proof -
  show i: "snfilter_inv f'" using snfilter_inv_read[OF assms(1), of s] assms(2) by simp
  show "ch \<le> 255" using snfilter_read_result[of f s] assms(2) i by (simp add: snfilter_inv_def)
qed

lemma readQuoted_loop_no_abort:
  "snfilter_inv f \<Longrightarrow> snstr_readQuoted_loop e b s f \<noteq> None"
proof (induction "stream_measure f s" arbitrary: e b s f rule: less_induct)
  case less
  obtain ch f' s' where rd: "snfilter_read f s = (ch, f', s')" by (metis prod_cases3)
  note iv = snfilter_read_inv_result[OF less.prems rd]
  show ?case
  proof (cases "1 \<le> ch")
    case False
    then show ?thesis using rd
      by (subst snstr_readQuoted_loop.simps) (auto simp: Let_def snerr_defs ascii_defs)
  next
    case True
    then obtain ok b' where ap: "snbuffer_append b ch = Some (ok, b')"
      using snbuffer_append_in_range[OF True iv(2), of b] by auto
    have "stream_measure f' s' < stream_measure f s"
      using snfilter_read_measure[OF rd] True by simp
    then have "snstr_readQuoted_loop e' b' s' f' \<noteq> None" for e'
      using less.hyps iv(1) by simp
    then show ?thesis using rd ap True
      by (subst snstr_readQuoted_loop.simps) (auto simp: Let_def)
  qed
qed

lemma readCurlied_loop_no_abort:
  "snfilter_inv f \<Longrightarrow> snstr_readCurlied_loop e n b s f \<noteq> None"
proof (induction "stream_measure f s" arbitrary: e n b s f rule: less_induct)
  case less
  obtain ch f' s' where rd: "snfilter_read f s = (ch, f', s')" by (metis prod_cases3)
  note iv = snfilter_read_inv_result[OF less.prems rd]
  show ?case
  proof (cases "1 \<le> ch")
    case False
    then show ?thesis using rd
      by (subst snstr_readCurlied_loop.simps) (auto simp: Let_def snerr_defs ascii_defs split: prod.splits)
  next
    case True
    then obtain ok b' where ap: "snbuffer_append b ch = Some (ok, b')"
      using snbuffer_append_in_range[OF True iv(2), of b] by auto
    have "stream_measure f' s' < stream_measure f s"
      using snfilter_read_measure[OF rd] True by simp
    then have "snstr_readCurlied_loop e' n' b' s' f' \<noteq> None" for e' n'
      using less.hyps iv(1) by simp
    then show ?thesis using rd ap True
      by (subst snstr_readCurlied_loop.simps) (auto simp: Let_def split: prod.splits)
  qed
qed

text \<open>
  The end of a quoted literal in the words of the escape rule: going through the delivered
  characters with a flag that is set after a character exactly when that character is a
  backslash, the literal ends at the first double quote met with the flag clear.  The
  result is the literal's data and the characters after the closing quote.
\<close>

fun quoted_literal :: "bool \<Rightarrow> int list \<Rightarrow> (int list \<times> int list) option" where
  "quoted_literal esc [] = None"
| "quoted_literal esc (ch # chs) =
     (if \<not> esc \<and> ch = ASCII_DQUOTE then Some ([], chs)
      else (case quoted_literal (ch = ASCII_BACKSLASH) chs of
              None \<Rightarrow> None
            | Some (body, rest) \<Rightarrow> Some (ch # body, rest)))"

lemma drain_ConsD:
  "snfilter_drain f s = ch # chs \<Longrightarrow>
     \<exists>f' s'. snfilter_read f s = (ch, f', s') \<and> 0 \<le> ch \<and> snfilter_drain f' s' = chs"
  by (subst (asm) snfilter_drain.simps) (auto split: prod.splits if_splits)

lemma snbuffer_reset_ok:
  "snbuffer_ok b \<Longrightarrow> snbuffer_ok (snbuffer_reset b 0) \<and> count (snbuffer_reset b 0) = 0 \<and>
     maxcap (snbuffer_reset b 0) = maxcap b \<and> snbuffer_data (snbuffer_reset b 0) = []"
  by (auto simp: snbuffer_ok_def snbuffer_reset_def snbuffer_data_def Let_def split: if_splits)

lemma readQuoted_loop_literal:
  assumes "snfilter_inv f" and "snbuffer_ok b"
    and "quoted_literal (e \<noteq> 0) (snfilter_drain f s) = Some (body, rest)"
    and "0 \<notin> set body" and "count b + int (length body) < maxcap b"
  shows "\<exists>b' s' f'. snstr_readQuoted_loop e b s f = Some (0, b', s', f') \<and>
           snbuffer_data b' = snbuffer_data b @ map word_of_int body \<and>
           snfilter_drain f' s' = rest"
  using assms
proof (induction body arbitrary: e b s f)
  case Nil
  then obtain ch chs where d: "snfilter_drain f s = ch # chs"
    by (cases "snfilter_drain f s") auto
  then obtain f' s' where rd: "snfilter_read f s = (ch, f', s')" "0 \<le> ch" "snfilter_drain f' s' = chs"
    using drain_ConsD by blast
  have q: "e = 0 \<and> ch = ASCII_DQUOTE \<and> rest = chs"
    using Nil.prems(3) d by (auto split: if_splits option.splits)
  then show ?case using rd
    by (subst snstr_readQuoted_loop.simps) (simp add: Let_def)
next
  case (Cons x body)
  then obtain ch chs where d: "snfilter_drain f s = ch # chs"
    by (cases "snfilter_drain f s") auto
  then obtain f' s' where rd: "snfilter_read f s = (ch, f', s')" "0 \<le> ch" "snfilter_drain f' s' = chs"
    using drain_ConsD by blast
  have q: "\<not> (e = 0 \<and> ch = ASCII_DQUOTE)" "x = ch"
    "quoted_literal (ch = ASCII_BACKSLASH) chs = Some (body, rest)"
    using Cons.prems(3) d by (auto split: if_splits option.splits)
  note iv = snfilter_read_inv_result[OF Cons.prems(1) rd(1)]
  have ch1: "1 \<le> ch" using rd(2) Cons.prems(4) q(2) by (cases "ch = 0") auto
  obtain b1 where ap: "snbuffer_append b ch = Some (1, b1)" "snbuffer_ok b1"
    "snbuffer_data b1 = snbuffer_data b @ [word_of_int ch]" "count b1 = count b + 1"
    "maxcap b1 = maxcap b"
    using snbuffer_append_ok[OF Cons.prems(2) ch1 iv(2)] Cons.prems(5) by auto
  define e' :: int where "e' = (if ch = ASCII_BACKSLASH then 1 else 0)"
  have q3: "quoted_literal (e' \<noteq> 0) (snfilter_drain f' s') = Some (body, rest)"
    using q(3) rd(3) by (cases "ch = ASCII_BACKSLASH") (simp_all add: e'_def)
  have "0 \<notin> set body" "count b1 + int (length body) < maxcap b1"
    using Cons.prems(4,5) ap by simp_all
  then have "\<exists>b' s'' f''. snstr_readQuoted_loop e' b1 s' f' = Some (0, b', s'', f'') \<and>
           snbuffer_data b' = snbuffer_data b1 @ map word_of_int body \<and>
           snfilter_drain f'' s'' = rest"
    using Cons.IH[OF iv(1) ap(2) q3] by blast
  moreover have "snstr_readQuoted_loop e b s f = snstr_readQuoted_loop e' b1 s' f'"
    using rd ap q ch1 by (subst snstr_readQuoted_loop.simps) (auto simp add: Let_def e'_def)
  ultimately show ?case using ap(3) q(2) by auto
qed

section \<open>The token reader of shastina.c\<close>

definition snchar_islegal :: "int \<Rightarrow> int" where
  "snchar_islegal c =
     (if (c \<ge> ASCII_VISIBLE_MIN \<and> c \<le> ASCII_VISIBLE_MAX) \<or>
         c = ASCII_SP \<or> c = ASCII_HT \<or> c = ASCII_LF
      then 1 else 0)"

definition snchar_isatomic :: "int \<Rightarrow> int" where
  "snchar_isatomic c =
     (if c = ASCII_LPAREN \<or> c = ASCII_RPAREN \<or>
         c = ASCII_LSQR \<or> c = ASCII_RSQR \<or>
         c = ASCII_COMMA \<or> c = ASCII_PERCENT \<or>
         c = ASCII_SEMICOLON \<or> c = ASCII_DQUOTE \<or>
         c = ASCII_GRACCENT \<or> c = ASCII_LCURL \<or>
         c = ASCII_RCURL
      then 1 else 0)"

definition snchar_isinclusive :: "int \<Rightarrow> int" where
  "snchar_isinclusive c =
     (if c = ASCII_DQUOTE \<or> c = ASCII_GRACCENT \<or> c = ASCII_LCURL then 1 else 0)"

definition snchar_isexclusive :: "int \<Rightarrow> int" where
  "snchar_isexclusive c =
     (if c = ASCII_HT \<or> c = ASCII_SP \<or> c = ASCII_LF \<or>
         c = ASCII_LPAREN \<or> c = ASCII_RPAREN \<or>
         c = ASCII_LSQR \<or> c = ASCII_RSQR \<or>
         c = ASCII_COMMA \<or> c = ASCII_PERCENT \<or>
         c = ASCII_SEMICOLON \<or> c = ASCII_POUNDSIGN \<or>
         c = ASCII_RCURL
      then 1 else 0)"

text \<open>
  \<^verbatim>\<open>sntk_skip\<close>.  Its two inner loops come first: the one that reads on over
  whitespace and the one that reads a comment to its line feed or to a negative result;
  each returns the last result read.  \<^verbatim>\<open>sntk_skip\<close> is \<open>None\<close> when it aborts
  because \<^verbatim>\<open>snfilter_pushback\<close> failed.
\<close>

lemma snfilter_read_measure_le:
  assumes "snfilter_read f s = (ch, f', s')"
  shows "stream_measure f' s' \<le> stream_measure f s"
proof (cases f s rule: snfilter_read_cases)
  case (quiet f'' s'')
  then show ?thesis using assms by (simp add: stream_measure_def)
next
  case (err e f'' s'')
  then show ?thesis using assms by (simp add: stream_measure_def)
next
  case (char c f'' s'')
  then show ?thesis using assms by (simp add: stream_measure_def)
qed

function sntk_skip_space :: "FILE \<Rightarrow> SNFILTER \<Rightarrow> int \<times> FILE \<times> SNFILTER" where
  "sntk_skip_space pIn pFilter =
     (case snfilter_read pFilter pIn of
        (c, pFilter', pIn') \<Rightarrow>
          if c = ASCII_SP \<or> c = ASCII_HT \<or> c = ASCII_LF
          then sntk_skip_space pIn' pFilter'
          else (c, pIn', pFilter'))"
  by pat_completeness auto
termination
  by (relation "measure (\<lambda>(s, f). stream_measure f s)")
     (auto intro: snfilter_read_decreases simp: ascii_defs)

function sntk_skip_comment :: "FILE \<Rightarrow> SNFILTER \<Rightarrow> int \<times> FILE \<times> SNFILTER" where
  "sntk_skip_comment pIn pFilter =
     (case snfilter_read pFilter pIn of
        (c, pFilter', pIn') \<Rightarrow>
          if c \<ge> 0 \<and> c \<noteq> ASCII_LF
          then sntk_skip_comment pIn' pFilter'
          else (c, pIn', pFilter'))"
  by pat_completeness auto
termination
  by (relation "measure (\<lambda>(s, f). stream_measure f s)")
     (auto intro: snfilter_read_decreases)

declare sntk_skip_space.simps [simp del] sntk_skip_comment.simps [simp del]

lemma sntk_skip_space_measure:
  "sntk_skip_space s f = (ch, s', f') \<Longrightarrow>
     stream_measure f' s' \<le> stream_measure f s \<and>
     (0 \<le> ch \<longrightarrow> stream_measure f' s' < stream_measure f s)"
proof (induction s f rule: sntk_skip_space.induct)
  case (1 pIn pFilter)
  obtain c f1 s1 where rd: "snfilter_read pFilter pIn = (c, f1, s1)" by (metis prod_cases3)
  show ?case
  proof (cases "c = ASCII_SP \<or> c = ASCII_HT \<or> c = ASCII_LF")
    case True
    then have "sntk_skip_space s1 f1 = (ch, s', f')"
      using 1(2) rd by (subst (asm) sntk_skip_space.simps) simp
    then have "stream_measure f' s' \<le> stream_measure f1 s1"
      using 1(1)[OF rd[symmetric] refl True] by simp
    moreover have "stream_measure f1 s1 < stream_measure pFilter pIn"
      using snfilter_read_measure[OF rd] True by (auto simp: ascii_defs)
    ultimately show ?thesis by simp
  next
    case False
    then have "(ch, s', f') = (c, s1, f1)"
      using 1(2) rd by (subst (asm) sntk_skip_space.simps) simp
    then show ?thesis using snfilter_read_measure_le[OF rd] snfilter_read_measure[OF rd] by auto
  qed
qed

lemma sntk_skip_comment_measure:
  "sntk_skip_comment s f = (ch, s', f') \<Longrightarrow> stream_measure f' s' \<le> stream_measure f s"
proof (induction s f rule: sntk_skip_comment.induct)
  case (1 pIn pFilter)
  obtain c f1 s1 where rd: "snfilter_read pFilter pIn = (c, f1, s1)" by (metis prod_cases3)
  show ?case
  proof (cases "c \<ge> 0 \<and> c \<noteq> ASCII_LF")
    case True
    then have "sntk_skip_comment s1 f1 = (ch, s', f')"
      using 1(2) rd by (subst (asm) sntk_skip_comment.simps) simp
    then have "stream_measure f' s' \<le> stream_measure f1 s1"
      using 1(1)[OF rd[symmetric] refl True] by simp
    then show ?thesis using snfilter_read_measure_le[OF rd] by simp
  next
    case False
    then have "(ch, s', f') = (c, s1, f1)"
      using 1(2) rd by (subst (asm) sntk_skip_comment.simps) auto
    then show ?thesis using snfilter_read_measure_le[OF rd] by auto
  qed
qed

function sntk_skip :: "FILE \<Rightarrow> SNFILTER \<Rightarrow> (FILE \<times> SNFILTER) option" where
  "sntk_skip pIn pFilter =
     (case sntk_skip_space pIn pFilter of
        (c, pIn1, pFilter1) \<Rightarrow>
          if c \<noteq> ASCII_POUNDSIGN then
            (case snfilter_pushback pFilter1 of
               (ok, pFilter2) \<Rightarrow> if ok = 0 then None else Some (pIn1, pFilter2))
          else
            (case sntk_skip_comment pIn1 pFilter1 of
               (c', pIn2, pFilter2) \<Rightarrow>
                 if c' \<ge> 0 then sntk_skip pIn2 pFilter2 else Some (pIn2, pFilter2)))"
  by pat_completeness auto
termination
proof (relation "measure (\<lambda>(s, f). stream_measure f s)", goal_cases)
  case 1
  then show ?case by simp
next
  case 2
  then show ?case
    using sntk_skip_space_measure[OF sym] sntk_skip_comment_measure[OF sym]
    by (fastforce simp: ascii_defs)
qed

declare sntk_skip.simps [simp del]

text \<open>
  The loop of \<^verbatim>\<open>sntk_readToken\<close> that reads the characters after the first.  The
  locals \<^verbatim>\<open>leave\<close> and \<^verbatim>\<open>omit\<close> are zero at the start of every iteration (the
  loop is left as soon as one of them is set or an error is recorded), so they are local
  to an iteration here.
\<close>

function sntk_readToken_loop ::
  "SNBUFFER \<Rightarrow> FILE \<Rightarrow> SNFILTER \<Rightarrow> (int \<times> SNBUFFER \<times> FILE \<times> SNFILTER) option" where
  "sntk_readToken_loop pBuffer pIn pFilter =
     (case snfilter_read pFilter pIn of
        (c, pFilter1, pIn1) \<Rightarrow>
          (let err_num = (if c < 0 then c else 0);
               err_num = (if err_num = 0 \<and> snchar_islegal c = 0 then SNERR_BADCHAR else err_num);
               leave = (if err_num = 0 \<and> snchar_isinclusive c \<noteq> 0 then 1 else (0::int))
           in case (if err_num = 0 \<and> snchar_isexclusive c \<noteq> 0
                    then (case snfilter_pushback pFilter1 of
                            (ok, pFilter2) \<Rightarrow>
                              if ok = 0 then None else Some (1, 1, pFilter2))
                    else Some (leave, 0::int, pFilter1)) of
                None \<Rightarrow> None
              | Some (leave, omit, pFilter2) \<Rightarrow>
                  (case (if err_num = 0 \<and> omit = 0
                         then (case snbuffer_append pBuffer c of
                                 None \<Rightarrow> None
                               | Some (ok, pBuffer1) \<Rightarrow>
                                   Some ((if ok = 0 then SNERR_LONGTOKEN else err_num), pBuffer1))
                         else Some (err_num, pBuffer)) of
                     None \<Rightarrow> None
                   | Some (err_num, pBuffer1) \<Rightarrow>
                       if err_num = 0 \<and> leave \<noteq> 0 then Some (err_num, pBuffer1, pIn1, pFilter2)
                       else if err_num = 0 then sntk_readToken_loop pBuffer1 pIn1 pFilter2
                       else Some (err_num, pBuffer1, pIn1, pFilter2))))"
  by pat_completeness auto
termination
proof (relation "measure (\<lambda>(b, s, f). stream_measure f s)", goal_cases)
  case 1
  then show ?case by simp
next
  case 2
  then show ?case
    by (auto split: if_splits prod.splits intro: snfilter_read_decreases)
qed

declare sntk_readToken_loop.simps [simp del]

text \<open>
  \<^verbatim>\<open>sntk_readToken\<close>: the value of \<^verbatim>\<open>err_num\<close> with the buffer, the stream and
  the filter at the return, or \<open>None\<close> for an abort.
\<close>

definition sntk_readToken ::
  "SNBUFFER \<Rightarrow> FILE \<Rightarrow> SNFILTER \<Rightarrow> (int \<times> SNBUFFER \<times> FILE \<times> SNFILTER) option" where
  "sntk_readToken pBuffer pIn pFilter =
     (let pBuffer = snbuffer_reset pBuffer 0
      in case sntk_skip pIn pFilter of
           None \<Rightarrow> None
         | Some (pIn, pFilter) \<Rightarrow>
      (case snfilter_read pFilter pIn of
         (c, pFilter, pIn) \<Rightarrow>
      (let err_num = (if c < 0 then c else 0);
           err_num = (if err_num = 0 \<and> snchar_islegal c = 0 then SNERR_BADCHAR else err_num)
       in case (if err_num = 0
                then (case snbuffer_append pBuffer c of
                        None \<Rightarrow> None
                      | Some (ok, pBuffer) \<Rightarrow>
                          Some ((if ok = 0 then SNERR_LONGTOKEN else err_num), pBuffer))
                else Some (err_num, pBuffer)) of
            None \<Rightarrow> None
          | Some (err_num, pBuffer) \<Rightarrow>
      (case (if err_num = 0 \<and> c = ASCII_BAR then
               (case snfilter_read pFilter pIn of
                  (c2, pFilter, pIn) \<Rightarrow>
                    (let err_num = (if c2 < 0 then c2 else err_num)
                     in if err_num = 0 \<and> c2 = ASCII_SEMICOLON then
                          (case snbuffer_append pBuffer c2 of
                             None \<Rightarrow> None
                           | Some (ok, pBuffer) \<Rightarrow>
                               Some ((if ok = 0 then SNERR_LONGTOKEN else err_num), 1::int,
                                     pBuffer, pIn, pFilter))
                        else
                          (case snfilter_pushback pFilter of
                             (ok, pFilter) \<Rightarrow>
                               if ok = 0 then None
                               else Some (err_num, 0, pBuffer, pIn, pFilter))))
             else Some (err_num, 0, pBuffer, pIn, pFilter)) of
         None \<Rightarrow> None
       | Some (err_num, term, pBuffer, pIn, pFilter) \<Rightarrow>
      (case (if err_num = 0 \<and> term \<noteq> 0 then
               (case sntk_skip pIn pFilter of
                  None \<Rightarrow> None
                | Some (pIn, pFilter) \<Rightarrow>
                    (case snfilter_read pFilter pIn of
                       (c2, pFilter, pIn) \<Rightarrow>
                         Some ((if c2 \<noteq> SNERR_EOF
                                then (if c2 \<ge> 0 then SNERR_TRAILER else c2)
                                else err_num), pIn, pFilter)))
             else Some (err_num, pIn, pFilter)) of
         None \<Rightarrow> None
       | Some (err_num, pIn, pFilter) \<Rightarrow>
           if err_num = 0 \<and> term = 0 \<and> snchar_isatomic c = 0
           then sntk_readToken_loop pBuffer pIn pFilter
           else Some (err_num, pBuffer, pIn, pFilter))))))"

lemma snchar_atomic_facts:
  assumes "snchar_isatomic ch \<noteq> 0"
  shows "snchar_islegal ch \<noteq> 0" "1 \<le> ch" "ch \<le> 255" "ch \<noteq> ASCII_BAR" "\<not> ch < 0"
  using assms
  by (auto simp add: snchar_isatomic_def snchar_islegal_def ascii_defs split: if_splits)

text \<open>
  A token that starts with a character accepted by \<^verbatim>\<open>snchar_isatomic\<close> is that
  character alone.
\<close>

lemma sntk_readToken_single:
  assumes "sntk_skip pIn pFilter = Some (pIn1, pFilter1)"
    and "snfilter_read pFilter1 pIn1 = (c, pFilter2, pIn2)"
    and "snchar_isatomic c \<noteq> 0"
    and "snbuffer_ok pBuffer" and "2 \<le> maxcap pBuffer"
  shows "\<exists>b'. sntk_readToken pBuffer pIn pFilter = Some (0, b', pIn2, pFilter2) \<and>
           snbuffer_data b' = [word_of_int c]"
proof -
  note a = snchar_atomic_facts[OF assms(3)]
  let ?b = "snbuffer_reset pBuffer 0"
  note r = snbuffer_reset_ok[OF assms(4)]
  have "count ?b < maxcap ?b - 1" using r assms(5) by simp
  then obtain b' where ap: "snbuffer_append ?b c = Some (1, b')"
    "snbuffer_data b' = snbuffer_data ?b @ [word_of_int c]"
    using snbuffer_append_ok[OF _ a(2,3), of ?b] r by blast
  have "sntk_readToken pBuffer pIn pFilter = Some (0, b', pIn2, pFilter2)"
    using assms(1,2,3) a ap(1) by (simp add: sntk_readToken_def Let_def)
  then show ?thesis using ap(2) r by simp
qed

section \<open>The block reader of shasm_block.c\<close>

definition SHASM_BLOCK_MINBUFFER :: int where "SHASM_BLOCK_MINBUFFER = 32"
definition SHASM_BLOCK_MAXBUFFER :: int where "SHASM_BLOCK_MAXBUFFER = 32767"
definition SHASM_BLOCK_MINTBUF :: int where "SHASM_BLOCK_MINTBUF = 8"
definition SHASM_BLOCK_MAXCODE :: int where "SHASM_BLOCK_MAXCODE = 0x10ffff"
definition SHASM_BLOCK_MINSURROGATE :: int where "SHASM_BLOCK_MINSURROGATE = 0xd800"
definition SHASM_BLOCK_MAXSURROGATE :: int where "SHASM_BLOCK_MAXSURROGATE = 0xdfff"
definition SHASM_BLOCK_HISURROGATE :: int where "SHASM_BLOCK_HISURROGATE = 0xd800"
definition SHASM_BLOCK_LOSURROGATE :: int where "SHASM_BLOCK_LOSURROGATE = 0xdc00"
definition SHASM_BLOCK_MINSUPPLEMENTAL :: int where "SHASM_BLOCK_MINSUPPLEMENTAL = 0x10000"
definition SHASM_BLOCK_UTF8_2BYTE :: int where "SHASM_BLOCK_UTF8_2BYTE = 0x80"
definition SHASM_BLOCK_UTF8_3BYTE :: int where "SHASM_BLOCK_UTF8_3BYTE = 0x800"
definition SHASM_BLOCK_UTF8_4BYTE :: int where "SHASM_BLOCK_UTF8_4BYTE = 0x10000"
definition SHASM_BLOCK_UTF8_2MASK :: int where "SHASM_BLOCK_UTF8_2MASK = 0xC0"
definition SHASM_BLOCK_UTF8_3MASK :: int where "SHASM_BLOCK_UTF8_3MASK = 0xE0"
definition SHASM_BLOCK_UTF8_4MASK :: int where "SHASM_BLOCK_UTF8_4MASK = 0xF0"

lemmas shasm_defs =
  SHASM_BLOCK_MINBUFFER_def SHASM_BLOCK_MAXBUFFER_def SHASM_BLOCK_MINTBUF_def
  SHASM_BLOCK_MAXCODE_def SHASM_BLOCK_MINSURROGATE_def SHASM_BLOCK_MAXSURROGATE_def
  SHASM_BLOCK_HISURROGATE_def SHASM_BLOCK_LOSURROGATE_def SHASM_BLOCK_MINSUPPLEMENTAL_def
  SHASM_BLOCK_UTF8_2BYTE_def SHASM_BLOCK_UTF8_3BYTE_def SHASM_BLOCK_UTF8_4BYTE_def
  SHASM_BLOCK_UTF8_2MASK_def SHASM_BLOCK_UTF8_3MASK_def SHASM_BLOCK_UTF8_4MASK_def

text \<open>
  Modelled from the spec: the status codes of shasm_error.h, a header that is not among
  the sources.  The code only compares them with \<^verbatim>\<open>SHASM_OKAY\<close> and stores them,
  so they are an enumeration here, with the codes that shasm_block.c names.
\<close>

datatype shasm_status =
  SHASM_OKAY | SHASM_ERR_EOF | SHASM_ERR_IO | SHASM_ERR_HUGEBLOCK | SHASM_ERR_TOKENCHAR

text \<open>
  The structure \<^verbatim>\<open>SHASM_BLOCK\<close>.  Its buffer \<^verbatim>\<open>pBuf\<close> is the list
  \<open>block_pBuf\<close> of \<open>buf_cap\<close> bytes.
\<close>

record SHASM_BLOCK =
  code :: shasm_status
  line :: int
  buf_cap :: int
  buf_len :: int
  null_present :: int
  block_pBuf :: "8 word list"

definition shasm_block_clear :: "SHASM_BLOCK \<Rightarrow> SHASM_BLOCK" where
  "shasm_block_clear pb =
     pb\<lparr>buf_len := 0, null_present := 0, block_pBuf := replicate (nat (buf_cap pb)) 0\<rparr>"

text \<open>
  \<^verbatim>\<open>shasm_block_seterr\<close>.  The input filter chain of shasm_input.c is not among the
  sources; the function only asks it for the line number, so the argument
  \<open>ps_count\<close> is the value of \<^verbatim>\<open>shasm_input_count(ps)\<close>.
\<close>

definition shasm_block_seterr :: "SHASM_BLOCK \<Rightarrow> int \<Rightarrow> shasm_status \<Rightarrow> SHASM_BLOCK option" where
  "shasm_block_seterr pb ps_count err =
     (if err = SHASM_OKAY then None
      else if code pb = SHASM_OKAY
           then Some ((shasm_block_clear pb)\<lparr>code := err, line := ps_count\<rparr>)
           else Some pb)"

text \<open>
  \<^verbatim>\<open>shasm_block_addByte\<close>: the status (non-zero for success) and the block after the
  call.  \<^verbatim>\<open>realloc\<close> keeps the bytes in front and the \<^verbatim>\<open>memset\<close> after it
  clears everything from \<open>buf_len\<close> on, so the buffer after both is the first
  \<open>buf_len\<close> bytes followed by zeros up to the new capacity.  The byte is written
  inside the buffer in every state that satisfies \<open>block_ok\<close> below.
\<close>

definition shasm_block_addByte :: "SHASM_BLOCK \<Rightarrow> int \<Rightarrow> (int \<times> SHASM_BLOCK) option" where
  "shasm_block_addByte pb c =
     (if c < 0 \<or> c > 255 then None
      else
        (let status = (if code pb \<noteq> SHASM_OKAY then 0 else (1::int));
             (status, pb) =
               (if status \<noteq> 0 \<and> buf_len pb \<ge> buf_cap pb - 1 then
                  (let status = (if buf_len pb \<ge> SHASM_BLOCK_MAXBUFFER then 0 else status);
                       pb = (if status \<noteq> 0 then
                               (let cap2 = buf_cap pb * 2;
                                    cap2 = (if cap2 > SHASM_BLOCK_MAXBUFFER
                                            then SHASM_BLOCK_MAXBUFFER else cap2)
                                in pb\<lparr>buf_cap := cap2\<rparr>)
                             else pb);
                       pb = (if status \<noteq> 0 then
                               pb\<lparr>block_pBuf := take (nat (buf_len pb)) (block_pBuf pb) @
                                                  replicate (nat (buf_cap pb - buf_len pb)) 0\<rparr>
                             else pb)
                   in (status, pb))
                else (status, pb));
             pb = (if status \<noteq> 0 \<and> c = 0 then pb\<lparr>null_present := 1\<rparr> else pb);
             pb = (if status \<noteq> 0 then
                     pb\<lparr>block_pBuf := (block_pBuf pb)[nat (buf_len pb) := word_of_int c],
                        buf_len := buf_len pb + 1\<rparr>
                   else pb)
         in Some (status, pb)))"

definition shasm_block_alloc :: SHASM_BLOCK where
  "shasm_block_alloc =
     \<lparr>code = SHASM_OKAY, line = 1, buf_cap = SHASM_BLOCK_MINBUFFER, buf_len = 0,
      null_present = 0, block_pBuf = replicate (nat SHASM_BLOCK_MINBUFFER) 0\<rparr>"

definition shasm_block_status :: "SHASM_BLOCK \<Rightarrow> shasm_status \<times> int option" where
  "shasm_block_status pb =
     (code pb, if code pb \<noteq> SHASM_OKAY then Some (line pb) else None)"

definition shasm_block_count :: "SHASM_BLOCK \<Rightarrow> int" where
  "shasm_block_count pb = (if code pb = SHASM_OKAY then buf_len pb else 0)"

text \<open>
  \<^verbatim>\<open>shasm_block_ptr\<close> returns a pointer into the buffer or \<^verbatim>\<open>NULL\<close>: here the
  memory the pointer gives access to (the buffer after the call) or \<open>None\<close>, with the
  block after the call.  \<open>c_string\<close> reads memory as a null-terminated string.
\<close>

definition shasm_block_ptr :: "SHASM_BLOCK \<Rightarrow> int \<Rightarrow> 8 word list option \<times> SHASM_BLOCK" where
  "shasm_block_ptr pb null_term =
     (if code pb \<noteq> SHASM_OKAY then
        (let pb = pb\<lparr>block_pBuf := (block_pBuf pb)[0 := 0]\<rparr> in (Some (block_pBuf pb), pb))
      else if null_term \<noteq> 0 then
        (if null_present pb \<noteq> 0 then (None, pb) else (Some (block_pBuf pb), pb))
      else (Some (block_pBuf pb), pb))"

definition shasm_block_line :: "SHASM_BLOCK \<Rightarrow> int" where
  "shasm_block_line pb = (if code pb = SHASM_OKAY then line pb else LONG_MAX)"

definition c_string :: "8 word list \<Rightarrow> 8 word list" where
  "c_string mem = takeWhile (\<lambda>b. b \<noteq> 0) mem"


text \<open>
  \<open>block_data\<close> is the data a block holds and \<open>block_ok\<close> an invariant of the
  blocks made by \<^verbatim>\<open>shasm_block_alloc\<close> and changed by the functions of this section.
  It allows \<open>buf_len\<close> to reach \<open>buf_cap\<close>, since the code does.
\<close>

definition block_data :: "SHASM_BLOCK \<Rightarrow> 8 word list" where
  "block_data pb = take (nat (buf_len pb)) (block_pBuf pb)"

definition block_ok :: "SHASM_BLOCK \<Rightarrow> bool" where
  "block_ok pb =
     (SHASM_BLOCK_MINBUFFER \<le> buf_cap pb \<and> buf_cap pb \<le> SHASM_BLOCK_MAXBUFFER \<and>
      0 \<le> buf_len pb \<and> buf_len pb \<le> buf_cap pb \<and>
      (buf_len pb < buf_cap pb \<or> buf_cap pb = SHASM_BLOCK_MAXBUFFER) \<and>
      length (block_pBuf pb) = nat (buf_cap pb))"

lemma block_ok_alloc: "block_ok shasm_block_alloc"
  by (simp add: block_ok_def shasm_block_alloc_def shasm_defs)

lemma block_ok_clear: "block_ok pb \<Longrightarrow> block_ok (shasm_block_clear pb)"
  by (auto simp add: block_ok_def shasm_block_clear_def shasm_defs)

lemma shasm_block_addByte_room:
  assumes ok: "block_ok pb" and st: "code pb = SHASM_OKAY" and ch: "0 \<le> ch" "ch \<le> 255"
    and room: "buf_len pb < SHASM_BLOCK_MAXBUFFER"
  shows "\<exists>pb'. shasm_block_addByte pb ch = Some (1, pb') \<and> block_ok pb' \<and>
           code pb' = SHASM_OKAY \<and> line pb' = line pb \<and> buf_len pb' = buf_len pb + 1 \<and>
           block_data pb' = block_data pb @ [word_of_int ch]"
proof -
  define cap2 where "cap2 = (if buf_cap pb * 2 > SHASM_BLOCK_MAXBUFFER
                              then SHASM_BLOCK_MAXBUFFER else buf_cap pb * 2)"
  define p1 where "p1 = (if buf_len pb \<ge> buf_cap pb - 1
       then pb\<lparr>buf_cap := cap2,
               block_pBuf := take (nat (buf_len pb)) (block_pBuf pb) @
                             replicate (nat (cap2 - buf_len pb)) 0\<rparr>
       else pb)"
  define p2 where "p2 = (if ch = 0 then p1\<lparr>null_present := 1\<rparr> else p1)"
  define pb' where "pb' = p2\<lparr>block_pBuf := (block_pBuf p2)[nat (buf_len p2) := word_of_int ch],
                        buf_len := buf_len p2 + 1\<rparr>"
  have app: "shasm_block_addByte pb ch = Some (1, pb')"
    using st ch room
    by (simp add: shasm_block_addByte_def Let_def pb'_def p2_def p1_def cap2_def)
  have c2: "buf_len pb \<ge> buf_cap pb - 1 \<Longrightarrow> buf_len pb < cap2 \<and> cap2 \<le> SHASM_BLOCK_MAXBUFFER \<and>
      (buf_len pb + 1 < cap2 \<or> cap2 = SHASM_BLOCK_MAXBUFFER)"
    using ok room by (auto simp: cap2_def block_ok_def)
  have f1: "code p2 = SHASM_OKAY" "line p2 = line pb" "buf_len p2 = buf_len pb"
    "SHASM_BLOCK_MINBUFFER \<le> buf_cap p2" "buf_cap p2 \<le> SHASM_BLOCK_MAXBUFFER"
    "buf_len pb < buf_cap p2"
    "buf_len pb + 1 < buf_cap p2 \<or> buf_cap p2 = SHASM_BLOCK_MAXBUFFER"
    "length (block_pBuf p2) = nat (buf_cap p2)"
    "take (nat (buf_len pb)) (block_pBuf p2) = take (nat (buf_len pb)) (block_pBuf pb)"
    using ok st c2 unfolding p2_def p1_def block_ok_def cap2_def
    by (auto simp add: shasm_defs split: if_splits)
  have len: "nat (buf_len pb) < length (block_pBuf p2)" using f1 ok by (simp add: block_ok_def)
  have "take (nat (buf_len pb + 1)) ((block_pBuf p2)[nat (buf_len pb) := word_of_int ch]) =
        take (nat (buf_len pb)) (block_pBuf p2) @ [word_of_int ch]"
    using len ok by (simp add: block_ok_def nat_add_distrib take_Suc_conv_app_nth)
  then have "block_data pb' = block_data pb @ [word_of_int ch]"
    using f1 by (simp add: block_data_def pb'_def)
  moreover have "block_ok pb'"
    using f1 ok by (auto simp add: block_ok_def pb'_def)
  moreover have "code pb' = SHASM_OKAY" "line pb' = line pb" "buf_len pb' = buf_len pb + 1"
    using f1 by (simp_all add: pb'_def)
  ultimately show ?thesis using app by blast
qed

lemma shasm_block_addByte_full:
  assumes "block_ok pb" and "0 \<le> ch" "ch \<le> 255" and "buf_len pb = SHASM_BLOCK_MAXBUFFER"
  shows "shasm_block_addByte pb ch = Some (0, pb)"
  using assms by (auto simp add: shasm_block_addByte_def Let_def block_ok_def)

lemma shasm_block_addByte_error:
  assumes "code pb \<noteq> SHASM_OKAY" and "0 \<le> ch" "ch \<le> 255"
  shows "shasm_block_addByte pb ch = Some (0, pb)"
  using assms by (simp add: shasm_block_addByte_def Let_def)

subsection \<open>Temporary buffers\<close>

record SHASM_BLOCK_TBUF =
  tbuf_len :: int
  tbuf_pBuf :: "8 word list"

definition shasm_block_tbuf_init :: SHASM_BLOCK_TBUF where
  "shasm_block_tbuf_init = \<lparr>tbuf_len = 0, tbuf_pBuf = []\<rparr>"

definition shasm_block_tbuf_reset :: "SHASM_BLOCK_TBUF \<Rightarrow> SHASM_BLOCK_TBUF" where
  "shasm_block_tbuf_reset pt = pt\<lparr>tbuf_pBuf := [], tbuf_len := 0\<rparr>"

text \<open>
  The doubling loop of \<^verbatim>\<open>shasm_block_tbuf_widen\<close>.  The statement before the loop
  makes the target length at least one; the definition has that as a guard, which makes
  it total.
\<close>

function shasm_block_tbuf_double :: "int \<Rightarrow> int \<Rightarrow> int" where
  "shasm_block_tbuf_double tl1 tlen =
     (if 1 \<le> tl1 \<and> tl1 < tlen then shasm_block_tbuf_double (tl1 * 2) tlen else tl1)"
  by pat_completeness auto
termination
  by (relation "measure (\<lambda>(tl1, tlen). nat (tlen - tl1))") auto

declare shasm_block_tbuf_double.simps [simp del]

definition shasm_block_tbuf_widen :: "SHASM_BLOCK_TBUF \<Rightarrow> int \<Rightarrow> (int \<times> SHASM_BLOCK_TBUF) option" where
  "shasm_block_tbuf_widen pt tlen =
     (if tlen < 0 then None
      else
        (let status = (if tlen > SHASM_BLOCK_MAXBUFFER then 0 else (1::int));
             pt = (if status \<noteq> 0 \<and> tlen > tbuf_len pt then
                     (let tl1 = tbuf_len pt;
                          tl1 = (if tl1 < 1 then SHASM_BLOCK_MINTBUF else tl1);
                          tl1 = shasm_block_tbuf_double tl1 tlen;
                          tl1 = (if tl1 > SHASM_BLOCK_MAXBUFFER then SHASM_BLOCK_MAXBUFFER else tl1)
                      in pt\<lparr>tbuf_len := tl1,
                            tbuf_pBuf := take (nat tl1) (tbuf_pBuf pt) @
                                         replicate (nat tl1 - length (tbuf_pBuf pt)) 0\<rparr>)
                   else pt);
             pt = (if status \<noteq> 0 \<and> tbuf_len pt > 0
                   then pt\<lparr>tbuf_pBuf := replicate (nat (tbuf_len pt)) 0\<rparr> else pt)
         in Some (status, pt)))"

definition shasm_block_tbuf_ptr :: "SHASM_BLOCK_TBUF \<Rightarrow> 8 word list" where
  "shasm_block_tbuf_ptr pt = tbuf_pBuf pt"

definition shasm_block_tbuf_len :: "SHASM_BLOCK_TBUF \<Rightarrow> int" where
  "shasm_block_tbuf_len pt = tbuf_len pt"

subsection \<open>Encoders\<close>

definition shasm_block_pair :: "int \<Rightarrow> (int \<times> int) option" where
  "shasm_block_pair entity =
     (if entity < SHASM_BLOCK_MINSUPPLEMENTAL \<or> entity > SHASM_BLOCK_MAXCODE then None
      else
        (let offs = entity - SHASM_BLOCK_MINSUPPLEMENTAL;
             lo = offs AND 0x3ff;
             hi = (drop_bit 10 offs) AND 0x3ff;
             lo = lo + SHASM_BLOCK_LOSURROGATE;
             hi = hi + SHASM_BLOCK_HISURROGATE
         in Some (hi, lo)))"

lemma and_3ff: "(x::int) AND 0x3ff = x mod 1024"
proof -
  have "(x::int) AND mask 10 = x mod 2 ^ 10"
    by (simp only: take_bit_eq_mask[symmetric] take_bit_eq_mod)
  then show ?thesis by (simp add: mask_eq_exp_minus_1)
qed

lemma pair_values:
  assumes "0x10000 \<le> e" and "e \<le> 0x10FFFF"
  shows "shasm_block_pair e = Some (0xD800 + (e - 0x10000) div 1024, 0xDC00 + (e - 0x10000) mod 1024)"
    and "0 \<le> (e - 0x10000) div 1024" and "(e - 0x10000) div 1024 \<le> 1023"
    and "0 \<le> (e - 0x10000) mod 1024" and "(e - 0x10000) mod 1024 \<le> 1023"
proof -
  show lt: "(e - 0x10000) div 1024 \<le> 1023" using assms by simp
  show ge: "0 \<le> (e - 0x10000) div 1024" using assms by simp
  show "0 \<le> (e - 0x10000) mod 1024" by simp
  have "(e - 0x10000) mod 1024 < 1024" by simp
  then show "(e - 0x10000) mod 1024 \<le> 1023" by linarith
  have "((e - 0x10000) div 1024) mod 1024 = (e - 0x10000) div 1024" using lt ge by simp
  then show "shasm_block_pair e = Some (0xD800 + (e - 0x10000) div 1024, 0xDC00 + (e - 0x10000) mod 1024)"
    using assms
    by (simp add: shasm_block_pair_def Let_def shasm_defs and_3ff drop_bit_eq_div)
qed

text \<open>
  Two idioms of the encoders: appending the bytes of an array one by one until an append
  fails, and one append guarded by the status so far.
\<close>

fun shasm_block_addBytes :: "SHASM_BLOCK \<Rightarrow> 8 word list \<Rightarrow> (int \<times> SHASM_BLOCK) option" where
  "shasm_block_addBytes pb [] = Some (1, pb)"
| "shasm_block_addBytes pb (b # bs) =
     (case shasm_block_addByte pb (uint b) of
        None \<Rightarrow> None
      | Some (ok, pb') \<Rightarrow> if ok = 0 then Some (0, pb') else shasm_block_addBytes pb' bs)"

definition shasm_block_addNext :: "int \<Rightarrow> SHASM_BLOCK \<Rightarrow> int \<Rightarrow> (int \<times> SHASM_BLOCK) option" where
  "shasm_block_addNext status pb c =
     (if status \<noteq> 0 then
        (case shasm_block_addByte pb c of
           None \<Rightarrow> None
         | Some (ok, pb') \<Rightarrow> Some ((if ok = 0 then 0 else status), pb'))
      else Some (status, pb))"

lemma tbuf_double_ge: "1 \<le> tl1 \<Longrightarrow> tlen \<le> shasm_block_tbuf_double tl1 tlen"
proof (induction tl1 tlen rule: shasm_block_tbuf_double.induct)
  case (1 tl1 tlen)
  then show ?case by (subst shasm_block_tbuf_double.simps) auto
qed

lemma tbuf_widen_len:
  assumes "shasm_block_tbuf_widen pt tlen = Some (ok, pt')" and "ok \<noteq> 0"
  shows "tlen \<le> tbuf_len pt'"
proof -
  have t: "0 \<le> tlen" "tlen \<le> SHASM_BLOCK_MAXBUFFER"
    using assms by (auto simp: shasm_block_tbuf_widen_def Let_def split: if_splits)
  show ?thesis
  proof (cases "tlen > tbuf_len pt")
    case False
    then show ?thesis using assms t
      by (auto simp: shasm_block_tbuf_widen_def Let_def split: if_splits)
  next
    case True
    define t0 where "t0 = (if tbuf_len pt < 1 then SHASM_BLOCK_MINTBUF else tbuf_len pt)"
    have "1 \<le> t0" by (simp add: t0_def shasm_defs)
    then have "tlen \<le> shasm_block_tbuf_double t0 tlen" by (rule tbuf_double_ge)
    then show ?thesis using assms t True
      by (auto simp: shasm_block_tbuf_widen_def Let_def t0_def split: if_splits)
  qed
qed

text \<open>
  Modelled from the spec: the encoding-table callback \<^verbatim>\<open>fpMap\<close> of
  \<^verbatim>\<open>SHASM_BLOCK_ENCODER\<close>, whose declaration in shasm_block.h is not among the
  sources.  An encoding table is a function from entity codes to byte sequences; a call
  returns the length of the sequence for the entity and, when the buffer handed to it is
  at least that long, writes the sequence at its start.  \<open>shasm_block_ereg_fill\<close> is
  the loop of \<^verbatim>\<open>shasm_block_ereg\<close> that calls the table until the sequence is in the
  temporary buffer.
\<close>

function shasm_block_ereg_fill ::
  "(int \<Rightarrow> 8 word list) \<Rightarrow> int \<Rightarrow> SHASM_BLOCK_TBUF \<Rightarrow> (int \<times> int \<times> SHASM_BLOCK_TBUF) option" where
  "shasm_block_ereg_fill fpMap entity pt =
     (let lv = int (length (fpMap entity));
          pt = (if shasm_block_tbuf_len pt \<ge> lv
                then pt\<lparr>tbuf_pBuf := fpMap entity @ drop (nat lv) (tbuf_pBuf pt)\<rparr>
                else pt)
      in if shasm_block_tbuf_len pt \<ge> lv then Some (1, lv, pt)
         else (case shasm_block_tbuf_widen pt lv of
                 None \<Rightarrow> None
               | Some (ok, pt') \<Rightarrow>
                   if ok = 0 then Some (0, lv, pt')
                   else shasm_block_ereg_fill fpMap entity pt'))"
  by pat_completeness auto
termination
proof (relation "measure (\<lambda>(f, e, pt). if tbuf_len pt \<ge> int (length (f e)) then 0 else 1)",
    goal_cases)
  case 1
  then show ?case by simp
next
  case (2 fpMap entity pt lv pt1 x ok pt')
  then show ?case
    using tbuf_widen_len[of pt "int (length (fpMap entity))" ok pt']
    by (auto simp: shasm_block_tbuf_len_def split: if_splits)
qed

declare shasm_block_ereg_fill.simps [simp del]

definition shasm_block_ereg ::
  "SHASM_BLOCK \<Rightarrow> int \<Rightarrow> (int \<Rightarrow> 8 word list) \<Rightarrow> SHASM_BLOCK_TBUF \<Rightarrow>
     (int \<times> SHASM_BLOCK \<times> SHASM_BLOCK_TBUF) option" where
  "shasm_block_ereg pb entity penc pt =
     (if entity < 0 then None
      else
        (let status = (if code pb \<noteq> SHASM_OKAY then 0 else (1::int))
         in case (if status \<noteq> 0 then shasm_block_ereg_fill penc entity pt
                  else Some (status, 0, pt)) of
              None \<Rightarrow> None
            | Some (status, lv, pt) \<Rightarrow>
                (case (if status \<noteq> 0
                       then shasm_block_addBytes pb (take (nat lv) (shasm_block_tbuf_ptr pt))
                       else Some (status, pb)) of
                   None \<Rightarrow> None
                 | Some (status, pb) \<Rightarrow> Some (status, pb, pt))))"

fun shasm_block_utf8_extract :: "nat \<Rightarrow> nat \<Rightarrow> 8 word list \<Rightarrow> int \<Rightarrow> 8 word list \<times> int" where
  "shasm_block_utf8_extract 0 i contb entity = (contb, entity)"
| "shasm_block_utf8_extract (Suc n) i contb entity =
     shasm_block_utf8_extract n (Suc i)
       (contb[i := word_of_int ((entity AND 0x3f) OR 0x80)]) (drop_bit 6 entity)"

function shasm_block_utf8 :: "SHASM_BLOCK \<Rightarrow> int \<Rightarrow> int \<Rightarrow> (int \<times> SHASM_BLOCK) option" where
  "shasm_block_utf8 pb entity cesu8 =
     (if entity < 0 \<or> entity > SHASM_BLOCK_MAXCODE then None
      else
        (let status = (if code pb \<noteq> SHASM_OKAY then 0 else (1::int))
         in case (if status \<noteq> 0 \<and> cesu8 \<noteq> 0 \<and> entity \<ge> SHASM_BLOCK_MINSUPPLEMENTAL then
                    (case shasm_block_pair entity of
                       None \<Rightarrow> None
                     | Some (s1, s2) \<Rightarrow>
                         (case shasm_block_utf8 pb s1 0 of
                            None \<Rightarrow> None
                          | Some (ok, pb') \<Rightarrow> Some ((if ok = 0 then 0 else status), s2, pb')))
                  else Some (status, entity, pb)) of
              None \<Rightarrow> None
            | Some (status, entity, pb) \<Rightarrow>
                (let codelen =
                       (if status \<noteq> 0 then
                          (if entity < SHASM_BLOCK_UTF8_2BYTE then 1
                           else if entity < SHASM_BLOCK_UTF8_3BYTE then 2
                           else if entity < SHASM_BLOCK_UTF8_4BYTE then 3
                           else 4)
                        else (0::nat));
                     (contb, entity) =
                       (if status \<noteq> 0
                        then shasm_block_utf8_extract (codelen - 1) 0 [0, 0, 0] entity
                        else ([0, 0, 0], entity));
                     contb =
                       (if status \<noteq> 0 \<and> codelen = 3 then contb[0 := contb ! 1, 1 := contb ! 0]
                        else if status \<noteq> 0 \<and> codelen = 4 then contb[0 := contb ! 2, 2 := contb ! 0]
                        else contb)
                 in case (if status \<noteq> 0 then
                            (let i = entity;
                                 i = (if codelen = 2 then i OR SHASM_BLOCK_UTF8_2MASK
                                      else if codelen = 3 then i OR SHASM_BLOCK_UTF8_3MASK
                                      else if codelen = 4 then i OR SHASM_BLOCK_UTF8_4MASK
                                      else i)
                             in shasm_block_addNext status pb i)
                          else Some (status, pb)) of
                      None \<Rightarrow> None
                    | Some (status, pb) \<Rightarrow>
                        if status \<noteq> 0
                        then shasm_block_addBytes pb (take (codelen - 1) contb)
                        else Some (status, pb))))"
  by pat_completeness auto
termination
  by (relation "measure (\<lambda>(pb, e, cesu8). if cesu8 \<noteq> 0 then 1 else 0)") auto

declare shasm_block_utf8.simps [simp del]

lemma pair_hi_small:
  "shasm_block_pair e = Some (h, l) \<Longrightarrow> h < SHASM_BLOCK_MINSUPPLEMENTAL"
proof -
  assume a: "shasm_block_pair e = Some (h, l)"
  have "(drop_bit 10 (e - SHASM_BLOCK_MINSUPPLEMENTAL)) mod 1024 < 1024" by simp
  then show ?thesis using a
    by (auto simp: shasm_block_pair_def Let_def and_3ff shasm_defs split: if_splits)
qed

function shasm_block_utf16 :: "SHASM_BLOCK \<Rightarrow> int \<Rightarrow> int \<Rightarrow> (int \<times> SHASM_BLOCK) option" where
  "shasm_block_utf16 pb entity big =
     (if entity < 0 \<or> entity > SHASM_BLOCK_MAXCODE then None
      else
        (let status = (if code pb \<noteq> SHASM_OKAY then 0 else (1::int))
         in case (if status \<noteq> 0 \<and> entity \<ge> SHASM_BLOCK_MINSUPPLEMENTAL then
                    (case shasm_block_pair entity of
                       None \<Rightarrow> None
                     | Some (s1, s2) \<Rightarrow>
                         (case shasm_block_utf16 pb s1 big of
                            None \<Rightarrow> None
                          | Some (ok, pb') \<Rightarrow> Some ((if ok = 0 then 0 else status), s2, pb')))
                  else Some (status, entity, pb)) of
              None \<Rightarrow> None
            | Some (status, entity, pb) \<Rightarrow>
                (let vb = (if status \<noteq> 0
                           then [word_of_int (entity AND 0xff),
                                 word_of_int ((drop_bit 8 entity) AND 0xff)]
                           else [0, 0 :: 8 word]);
                     vb = (if status \<noteq> 0 \<and> big \<noteq> 0 then [vb ! 1, vb ! 0] else vb)
                 in case shasm_block_addNext status pb (uint (vb ! 0)) of
                      None \<Rightarrow> None
                    | Some (status, pb) \<Rightarrow> shasm_block_addNext status pb (uint (vb ! 1)))))"
  by pat_completeness auto
termination
proof (relation "measure (\<lambda>(pb, e, big). if e \<ge> SHASM_BLOCK_MINSUPPLEMENTAL then 1 else 0)",
    goal_cases)
  case 1
  then show ?case by simp
next
  case (2 pb entity big status x s1 s2)
  then show ?case using pair_hi_small[of entity s1 s2] by (auto split: if_splits)
qed

declare shasm_block_utf16.simps [simp del]

definition shasm_block_utf32 :: "SHASM_BLOCK \<Rightarrow> int \<Rightarrow> int \<Rightarrow> (int \<times> SHASM_BLOCK) option" where
  "shasm_block_utf32 pb entity big =
     (if entity < 0 \<or> entity > SHASM_BLOCK_MAXCODE then None
      else
        (let status = (if code pb \<noteq> SHASM_OKAY then 0 else (1::int));
             vb = (if status \<noteq> 0
                   then [word_of_int (entity AND 0xff),
                         word_of_int ((drop_bit 8 entity) AND 0xff),
                         word_of_int ((drop_bit 16 entity) AND 0xff),
                         word_of_int ((drop_bit 24 entity) AND 0xff)]
                   else [0, 0, 0, 0 :: 8 word]);
             vb = (if status \<noteq> 0 \<and> big \<noteq> 0 then [vb ! 3, vb ! 2, vb ! 1, vb ! 0] else vb)
         in case shasm_block_addNext status pb (uint (vb ! 0)) of
              None \<Rightarrow> None
            | Some (status, pb) \<Rightarrow>
                (case shasm_block_addNext status pb (uint (vb ! 1)) of
                   None \<Rightarrow> None
                 | Some (status, pb) \<Rightarrow>
                     (case shasm_block_addNext status pb (uint (vb ! 2)) of
                        None \<Rightarrow> None
                      | Some (status, pb) \<Rightarrow> shasm_block_addNext status pb (uint (vb ! 3))))))"

text \<open>
  Modelled from the spec: the output override selection, whose constants are declared in
  shasm_block.h.  The last value stands for every integer that is none of the seven
  constants (the default case of the switch).
\<close>

datatype shasm_omode =
  SHASM_BLOCK_OMODE_NONE | SHASM_BLOCK_OMODE_UTF8 | SHASM_BLOCK_OMODE_CESU8 |
  SHASM_BLOCK_OMODE_U16LE | SHASM_BLOCK_OMODE_U16BE | SHASM_BLOCK_OMODE_U32LE |
  SHASM_BLOCK_OMODE_U32BE | SHASM_BLOCK_OMODE_unrecognized

definition shasm_block_encode ::
  "SHASM_BLOCK \<Rightarrow> int \<Rightarrow> (int \<Rightarrow> 8 word list) \<Rightarrow> shasm_omode \<Rightarrow> int \<Rightarrow> SHASM_BLOCK_TBUF \<Rightarrow>
     (int \<times> SHASM_BLOCK \<times> SHASM_BLOCK_TBUF) option" where
  "shasm_block_encode pb entity penc o_over o_strict pt =
     (if entity < 0 then None
      else
        (let status = (if code pb \<noteq> SHASM_OKAY then 0 else (1::int));
             o_over = (if status \<noteq> 0 \<and> entity > SHASM_BLOCK_MAXCODE
                       then SHASM_BLOCK_OMODE_NONE else o_over);
             o_over = (if status \<noteq> 0 \<and> o_strict \<noteq> 0 \<and>
                          entity \<ge> SHASM_BLOCK_MINSURROGATE \<and>
                          entity \<le> SHASM_BLOCK_MAXSURROGATE
                       then SHASM_BLOCK_OMODE_NONE else o_over)
         in if status \<noteq> 0 then
              (case o_over of
                 SHASM_BLOCK_OMODE_NONE \<Rightarrow>
                   (case shasm_block_ereg pb entity penc pt of
                      None \<Rightarrow> None
                    | Some (ok, pb, pt) \<Rightarrow> Some ((if ok = 0 then 0 else status), pb, pt))
               | SHASM_BLOCK_OMODE_UTF8 \<Rightarrow>
                   (case shasm_block_utf8 pb entity 0 of
                      None \<Rightarrow> None
                    | Some (ok, pb) \<Rightarrow> Some ((if ok = 0 then 0 else status), pb, pt))
               | SHASM_BLOCK_OMODE_CESU8 \<Rightarrow>
                   (case shasm_block_utf8 pb entity 1 of
                      None \<Rightarrow> None
                    | Some (ok, pb) \<Rightarrow> Some ((if ok = 0 then 0 else status), pb, pt))
               | SHASM_BLOCK_OMODE_U16LE \<Rightarrow>
                   (case shasm_block_utf16 pb entity 0 of
                      None \<Rightarrow> None
                    | Some (ok, pb) \<Rightarrow> Some ((if ok = 0 then 0 else status), pb, pt))
               | SHASM_BLOCK_OMODE_U16BE \<Rightarrow>
                   (case shasm_block_utf16 pb entity 1 of
                      None \<Rightarrow> None
                    | Some (ok, pb) \<Rightarrow> Some ((if ok = 0 then 0 else status), pb, pt))
               | SHASM_BLOCK_OMODE_U32LE \<Rightarrow>
                   (case shasm_block_utf32 pb entity 0 of
                      None \<Rightarrow> None
                    | Some (ok, pb) \<Rightarrow> Some ((if ok = 0 then 0 else status), pb, pt))
               | SHASM_BLOCK_OMODE_U32BE \<Rightarrow>
                   (case shasm_block_utf32 pb entity 1 of
                      None \<Rightarrow> None
                    | Some (ok, pb) \<Rightarrow> Some ((if ok = 0 then 0 else status), pb, pt))
               | SHASM_BLOCK_OMODE_unrecognized \<Rightarrow> None)
            else Some (status, pb, pt)))"


lemma addByte_status: "shasm_block_addByte pb ch = Some (st, pb') \<Longrightarrow> st = 0 \<or> st = 1"
  by (auto simp: shasm_block_addByte_def Let_def split: if_splits prod.splits)

lemma addBytes_status: "shasm_block_addBytes pb bs = Some (st, pb') \<Longrightarrow> st = 0 \<or> st = 1"
  by (induction bs arbitrary: pb) (auto split: option.splits if_splits)

lemma ereg_fill_status:
  "shasm_block_ereg_fill f e pt = Some (st, lv, pt') \<Longrightarrow> st = 0 \<or> st = 1"
proof (induction f e pt rule: shasm_block_ereg_fill.induct)
  case (1 fpMap entity pt)
  show ?case using "1.prems"
    apply (subst (asm) shasm_block_ereg_fill.simps)
    apply (simp only: Let_def split: if_splits option.splits prod.splits)
    using "1.IH" by (auto simp: Let_def)
qed

lemma ereg_status:
  "shasm_block_ereg pb e penc pt = Some (st, pb', pt') \<Longrightarrow> st = 0 \<or> st = 1"
  by (auto simp: shasm_block_ereg_def Let_def split: if_splits option.splits prod.splits
      dest: addBytes_status ereg_fill_status)

lemma encode_is_ereg:
  assumes "e > SHASM_BLOCK_MAXCODE \<or>
           (o_strict \<noteq> 0 \<and> SHASM_BLOCK_MINSURROGATE \<le> e \<and> e \<le> SHASM_BLOCK_MAXSURROGATE)"
  shows "shasm_block_encode pb e penc o_over o_strict pt = shasm_block_ereg pb e penc pt"
proof (cases "code pb = SHASM_OKAY")
  case False
  then show ?thesis using assms
    by (auto simp: shasm_block_encode_def shasm_block_ereg_def Let_def shasm_defs)
next
  case True
  have e0: "\<not> e < 0" using assms by (auto simp: shasm_defs)
  have "shasm_block_encode pb e penc o_over o_strict pt =
        (case shasm_block_ereg pb e penc pt of
           None \<Rightarrow> None
         | Some (ok, pb, pt) \<Rightarrow> Some ((if ok = 0 then 0 else 1), pb, pt))"
    using assms True e0 by (auto simp: shasm_block_encode_def Let_def)
  also have "\<dots> = shasm_block_ereg pb e penc pt"
    using ereg_status[of pb e penc pt] by (auto split: option.splits)
  finally show ?thesis .
qed

lemma addBytes_room:
  assumes "block_ok pb" and "code pb = SHASM_OKAY"
    and "buf_len pb + int (length bs) \<le> SHASM_BLOCK_MAXBUFFER"
  shows "\<exists>pb'. shasm_block_addBytes pb bs = Some (1, pb') \<and> block_ok pb' \<and>
           code pb' = SHASM_OKAY \<and> line pb' = line pb \<and>
           buf_len pb' = buf_len pb + int (length bs) \<and>
           block_data pb' = block_data pb @ bs"
  using assms
proof (induction bs arbitrary: pb)
  case Nil
  then show ?case by simp
next
  case (Cons b bs)
  have "uint b \<le> 255" by (rule uint_byte_le)
  then obtain p1 where p1: "shasm_block_addByte pb (uint b) = Some (1, p1)" "block_ok p1"
    "code p1 = SHASM_OKAY" "line p1 = line pb" "buf_len p1 = buf_len pb + 1"
    "block_data p1 = block_data pb @ [b]"
    using shasm_block_addByte_room[OF Cons.prems(1,2), of "uint b"] Cons.prems(3) by auto
  have "buf_len p1 + int (length bs) \<le> SHASM_BLOCK_MAXBUFFER" using p1 Cons.prems(3) by simp
  from Cons.IH[OF p1(2,3) this] p1 show ?case by auto
qed

lemma ereg_fill_fits:
  assumes "int (length (f e)) \<le> SHASM_BLOCK_MAXBUFFER"
  shows "\<exists>pt'. shasm_block_ereg_fill f e pt = Some (1, int (length (f e)), pt') \<and>
           take (length (f e)) (tbuf_pBuf pt') = f e"
proof (cases "tbuf_len pt \<ge> int (length (f e))")
  case True
  then show ?thesis
    by (subst shasm_block_ereg_fill.simps) (simp add: Let_def shasm_block_tbuf_len_def)
next
  case False
  obtain ok pt1 where w: "shasm_block_tbuf_widen pt (int (length (f e))) = Some (ok, pt1)"
    by (auto simp: shasm_block_tbuf_widen_def Let_def)
  have ok: "ok = 1" using w assms by (auto simp: shasm_block_tbuf_widen_def Let_def split: if_splits)
  have len: "tbuf_len pt1 \<ge> int (length (f e))" using tbuf_widen_len[OF w] ok by simp
  have "shasm_block_ereg_fill f e pt = shasm_block_ereg_fill f e pt1"
    using False w ok by (subst shasm_block_ereg_fill.simps) (simp add: Let_def shasm_block_tbuf_len_def)
  also have "\<exists>pt'. shasm_block_ereg_fill f e pt1 = Some (1, int (length (f e)), pt') \<and>
           take (length (f e)) (tbuf_pBuf pt') = f e"
    using len by (subst shasm_block_ereg_fill.simps) (simp add: Let_def shasm_block_tbuf_len_def)
  finally show ?thesis .
qed

lemma ereg_appends:
  assumes "block_ok pb" and "code pb = SHASM_OKAY" and "0 \<le> e"
    and "buf_len pb + int (length (penc e)) \<le> SHASM_BLOCK_MAXBUFFER"
  shows "\<exists>pb' pt'. shasm_block_ereg pb e penc pt = Some (1, pb', pt') \<and>
           block_data pb' = block_data pb @ penc e \<and> code pb' = SHASM_OKAY"
proof -
  have "int (length (penc e)) \<le> SHASM_BLOCK_MAXBUFFER" using assms by (simp add: block_ok_def)
  then obtain pt' where f: "shasm_block_ereg_fill penc e pt = Some (1, int (length (penc e)), pt')"
    "take (length (penc e)) (tbuf_pBuf pt') = penc e"
    using ereg_fill_fits[of penc e pt] by blast
  obtain pb' where a: "shasm_block_addBytes pb (penc e) = Some (1, pb')"
    "block_data pb' = block_data pb @ penc e" "code pb' = SHASM_OKAY"
    using addBytes_room[OF assms(1,2,4)] by blast
  show ?thesis using assms(2,3) f a
    by (simp add: shasm_block_ereg_def Let_def shasm_block_tbuf_ptr_def)
qed

text \<open>The two bytes of a 16-bit unit in the chosen byte order.\<close>

definition utf16_unit :: "int \<Rightarrow> int \<Rightarrow> 8 word list" where
  "utf16_unit big x =
     (if big \<noteq> 0 then [word_of_int (drop_bit 8 x AND 0xff), word_of_int (x AND 0xff)]
      else [word_of_int (x AND 0xff), word_of_int (drop_bit 8 x AND 0xff)])"

lemma addNext_room:
  assumes "block_ok pb" and "code pb = SHASM_OKAY" and "buf_len pb < SHASM_BLOCK_MAXBUFFER"
  shows "\<exists>pb'. shasm_block_addNext 1 pb (uint (b :: 8 word)) = Some (1, pb') \<and> block_ok pb' \<and>
           code pb' = SHASM_OKAY \<and> buf_len pb' = buf_len pb + 1 \<and>
           block_data pb' = block_data pb @ [b]"
  using shasm_block_addByte_room[OF assms(1,2) _ uint_byte_le[of b] assms(3)]
  by (auto simp: shasm_block_addNext_def)

lemma utf16_bmp:
  assumes "block_ok pb" and "code pb = SHASM_OKAY" and "0 \<le> x" and "x < 0x10000"
    and "buf_len pb + 2 \<le> SHASM_BLOCK_MAXBUFFER"
  shows "\<exists>pb'. shasm_block_utf16 pb x big = Some (1, pb') \<and> block_ok pb' \<and>
           code pb' = SHASM_OKAY \<and> buf_len pb' = buf_len pb + 2 \<and>
           block_data pb' = block_data pb @ utf16_unit big x"
proof -
  obtain b0 b1 where u: "utf16_unit big x = [b0, b1]" by (cases "big = 0") (simp_all add: utf16_unit_def)
  obtain p1 where p1: "shasm_block_addNext 1 pb (uint b0) = Some (1, p1)" "block_ok p1"
    "code p1 = SHASM_OKAY" "buf_len p1 = buf_len pb + 1" "block_data p1 = block_data pb @ [b0]"
    using addNext_room[OF assms(1,2), of b0] assms(5) by auto
  obtain p2 where p2: "shasm_block_addNext 1 p1 (uint b1) = Some (1, p2)" "block_ok p2"
    "code p2 = SHASM_OKAY" "buf_len p2 = buf_len p1 + 1" "block_data p2 = block_data p1 @ [b1]"
    using addNext_room[OF p1(2,3), of b1] p1(4) assms(5) by auto
  have "shasm_block_utf16 pb x big = Some (1, p2)"
    using assms(2,3,4) u p1(1) p2(1)
    by (subst shasm_block_utf16.simps)
       (auto simp add: Let_def shasm_defs utf16_unit_def split: if_splits)
  then show ?thesis using p1 p2 u by simp
qed

lemma utf16_supplemental:
  assumes "block_ok pb" and "code pb = SHASM_OKAY" and "0x10000 \<le> e" and "e \<le> 0x10FFFF"
    and "buf_len pb + 4 \<le> SHASM_BLOCK_MAXBUFFER"
    and "shasm_block_pair e = Some (high, low)"
  shows "\<exists>pb'. shasm_block_utf16 pb e big = Some (1, pb') \<and>
           block_data pb' = block_data pb @ utf16_unit big high @ utf16_unit big low"
proof -
  have hl: "0 \<le> high" "high < 0x10000" "0 \<le> low" "low < 0x10000"
    using pair_values[OF assms(3,4)] assms(6) by auto
  obtain p1 where p1: "shasm_block_utf16 pb high big = Some (1, p1)" "block_ok p1"
    "code p1 = SHASM_OKAY" "buf_len p1 = buf_len pb + 2"
    "block_data p1 = block_data pb @ utf16_unit big high"
    using utf16_bmp[OF assms(1,2) hl(1,2), of big] assms(5) by auto
  obtain p2 where p2: "shasm_block_utf16 p1 low big = Some (1, p2)"
    "block_data p2 = block_data p1 @ utf16_unit big low"
    using utf16_bmp[OF p1(2,3) hl(3,4), of big] p1(4) assms(5) by auto
  have "shasm_block_utf16 pb e big = shasm_block_utf16 p1 low big"
    using assms(2,3,4,6) p1(1,3) hl
    by (subst shasm_block_utf16.simps, subst (2) shasm_block_utf16.simps)
       (simp add: Let_def shasm_defs)
  then show ?thesis using p1 p2 by simp
qed

lemma block_ok_addByte:
  assumes "block_ok pb" and "shasm_block_addByte pb ch = Some (st, pb')"
  shows "block_ok pb'"
proof (cases "code pb = SHASM_OKAY \<and> buf_len pb < SHASM_BLOCK_MAXBUFFER")
  case True
  have "0 \<le> ch" "ch \<le> 255"
    using assms(2) by (auto simp: shasm_block_addByte_def split: if_splits)
  then show ?thesis using shasm_block_addByte_room[OF assms(1), of ch] True assms(2) by auto
next
  case False
  then have "pb' = pb" using assms
    by (auto simp: shasm_block_addByte_def Let_def block_ok_def split: if_splits)
  then show ?thesis using assms(1) by simp
qed

lemma block_ok_seterr:
  "block_ok pb \<Longrightarrow> shasm_block_seterr pb n err = Some pb' \<Longrightarrow> block_ok pb'"
  by (auto simp: shasm_block_seterr_def shasm_block_clear_def block_ok_def split: if_splits)

lemma block_ok_nonempty: "block_ok pb \<Longrightarrow> block_pBuf pb \<noteq> []"
  by (auto simp: block_ok_def shasm_defs)

section \<open>The token reader of shasm_block.c\<close>

text \<open>
  Modelled from the spec: the two results of \<^verbatim>\<open>shasm_input_get\<close> that are not
  characters (shasm_input.h) and the character constants of shasm_ascii.h; neither header
  is among the sources.  The code needs the two results to be distinct and not in the
  range 0 to 255; the character constants have their US-ASCII values.
\<close>

definition SHASM_INPUT_EOF :: int where "SHASM_INPUT_EOF = -1"
definition SHASM_INPUT_IOERR :: int where "SHASM_INPUT_IOERR = -2"

definition SHASM_ASCII_HT :: int where "SHASM_ASCII_HT = 0x9"
definition SHASM_ASCII_LF :: int where "SHASM_ASCII_LF = 0xa"
definition SHASM_ASCII_SP :: int where "SHASM_ASCII_SP = 0x20"
definition SHASM_ASCII_DQUOTE :: int where "SHASM_ASCII_DQUOTE = 0x22"
definition SHASM_ASCII_PERCENT :: int where "SHASM_ASCII_PERCENT = 0x25"
definition SHASM_ASCII_AMPERSAND :: int where "SHASM_ASCII_AMPERSAND = 0x26"
definition SHASM_ASCII_SQUOTE :: int where "SHASM_ASCII_SQUOTE = 0x27"
definition SHASM_ASCII_LPAREN :: int where "SHASM_ASCII_LPAREN = 0x28"
definition SHASM_ASCII_RPAREN :: int where "SHASM_ASCII_RPAREN = 0x29"
definition SHASM_ASCII_COMMA :: int where "SHASM_ASCII_COMMA = 0x2c"
definition SHASM_ASCII_SEMICOLON :: int where "SHASM_ASCII_SEMICOLON = 0x3b"
definition SHASM_ASCII_LSQR :: int where "SHASM_ASCII_LSQR = 0x5b"
definition SHASM_ASCII_RSQR :: int where "SHASM_ASCII_RSQR = 0x5d"
definition SHASM_ASCII_LCURL :: int where "SHASM_ASCII_LCURL = 0x7b"
definition SHASM_ASCII_BAR :: int where "SHASM_ASCII_BAR = 0x7c"
definition SHASM_ASCII_VISPRINT_MIN :: int where "SHASM_ASCII_VISPRINT_MIN = 0x21"
definition SHASM_ASCII_VISPRINT_MAX :: int where "SHASM_ASCII_VISPRINT_MAX = 0x7e"

lemmas shasm_ascii_defs =
  SHASM_INPUT_EOF_def SHASM_INPUT_IOERR_def
  SHASM_ASCII_HT_def SHASM_ASCII_LF_def SHASM_ASCII_SP_def SHASM_ASCII_DQUOTE_def
  SHASM_ASCII_PERCENT_def SHASM_ASCII_AMPERSAND_def SHASM_ASCII_SQUOTE_def
  SHASM_ASCII_LPAREN_def SHASM_ASCII_RPAREN_def SHASM_ASCII_COMMA_def
  SHASM_ASCII_SEMICOLON_def SHASM_ASCII_LSQR_def SHASM_ASCII_RSQR_def SHASM_ASCII_LCURL_def
  SHASM_ASCII_BAR_def SHASM_ASCII_VISPRINT_MIN_def SHASM_ASCII_VISPRINT_MAX_def

text \<open>
  Modelled from the spec: the input filter chain of shasm_input.c, which is not among the
  sources.  \<^verbatim>\<open>shasm_input_get\<close> delivers the filtered characters of the input one by
  one (\<open>ahead\<close> holds those still to come) and after them, on every call, the
  end-of-file result, or the I/O error result when \<open>io_fails\<close> holds.
  \<^verbatim>\<open>shasm_input_back\<close> makes the character delivered last the next one again, once;
  it does nothing after a result that is not a character.  \<^verbatim>\<open>shasm_input_count\<close>
  is the line number at the current position; the block reader only stores it, so it is
  some function \<open>line_at\<close> of the number of characters still to come.
\<close>

record SHASM_IFLSTATE =
  ahead :: "8 word list"
  io_fails :: bool
  unread :: "8 word option"
  line_at :: "nat \<Rightarrow> int"

definition shasm_input_get :: "SHASM_IFLSTATE \<Rightarrow> int \<times> SHASM_IFLSTATE" where
  "shasm_input_get ps =
     (case ahead ps of
        [] \<Rightarrow> (if io_fails ps then SHASM_INPUT_IOERR else SHASM_INPUT_EOF, ps\<lparr>unread := None\<rparr>)
      | b # bs \<Rightarrow> (uint b, ps\<lparr>ahead := bs, unread := Some b\<rparr>))"

definition shasm_input_back :: "SHASM_IFLSTATE \<Rightarrow> SHASM_IFLSTATE" where
  "shasm_input_back ps =
     (case unread ps of
        None \<Rightarrow> ps
      | Some b \<Rightarrow> ps\<lparr>ahead := b # ahead ps, unread := None\<rparr>)"

definition shasm_input_count :: "SHASM_IFLSTATE \<Rightarrow> int" where
  "shasm_input_count ps = line_at ps (length (ahead ps))"

lemma shasm_input_get_less:
  "(c, ps') = shasm_input_get ps \<Longrightarrow> 0 \<le> c \<Longrightarrow> length (ahead ps') < length (ahead ps)"
  by (auto simp: shasm_input_get_def shasm_ascii_defs split: list.splits if_splits)

lemma shasm_input_get_le:
  "(c, ps') = shasm_input_get ps \<Longrightarrow> length (ahead ps') \<le> length (ahead ps)"
  by (auto simp: shasm_input_get_def shasm_ascii_defs split: list.splits if_splits)

text \<open>
  \<^verbatim>\<open>shasm_block_token\<close>, in the order of its code: the two \<^verbatim>\<open>for\<close> loops that
  read over whitespace and over a comment, each returning the last result read; the
  \<^verbatim>\<open>while\<close> loop around them; the reading of the first character; the reading of
  the character after a vertical bar; the loop that reads further characters up to a stop
  character, and what is done with the stop character; and the function itself.  A
  result is the status (non-zero for success), the block reader and the input filter
  chain; it is \<open>None\<close> where the code aborts or reads outside the buffer.
\<close>

function shasm_block_token_space :: "SHASM_IFLSTATE \<Rightarrow> int \<times> SHASM_IFLSTATE" where
  "shasm_block_token_space ps =
     (case shasm_input_get ps of
        (c, ps) \<Rightarrow>
          if c = SHASM_ASCII_HT \<or> c = SHASM_ASCII_SP \<or> c = SHASM_ASCII_LF
          then shasm_block_token_space ps else (c, ps))"
  by pat_completeness auto
termination
  by (relation "measure (\<lambda>ps. length (ahead ps))")
     (auto intro: shasm_input_get_less simp: shasm_ascii_defs)

function shasm_block_token_comment :: "SHASM_IFLSTATE \<Rightarrow> int \<times> SHASM_IFLSTATE" where
  "shasm_block_token_comment ps =
     (case shasm_input_get ps of
        (c, ps) \<Rightarrow>
          if c \<noteq> SHASM_ASCII_LF \<and> c \<noteq> SHASM_INPUT_EOF \<and> c \<noteq> SHASM_INPUT_IOERR
          then shasm_block_token_comment ps else (c, ps))"
  by pat_completeness auto
termination
  by (relation "measure (\<lambda>ps. length (ahead ps))")
     (auto simp: shasm_input_get_def shasm_ascii_defs split: list.splits if_splits)

declare shasm_block_token_space.simps [simp del] shasm_block_token_comment.simps [simp del]

lemma token_space_le:
  "shasm_block_token_space ps = (c, ps') \<Longrightarrow>
     length (ahead ps') \<le> length (ahead ps) \<and> (0 \<le> c \<longrightarrow> length (ahead ps') < length (ahead ps))"
proof (induction ps rule: shasm_block_token_space.induct)
  case (1 ps)
  obtain c1 ps1 where g: "shasm_input_get ps = (c1, ps1)" by (metis prod.exhaust)
  show ?case
  proof (cases "c1 = SHASM_ASCII_HT \<or> c1 = SHASM_ASCII_SP \<or> c1 = SHASM_ASCII_LF")
    case True
    then have "shasm_block_token_space ps1 = (c, ps')"
      using 1(2) g by (subst (asm) shasm_block_token_space.simps) simp
    then have "length (ahead ps') \<le> length (ahead ps1)"
      using 1(1)[OF g[symmetric] True] by simp
    moreover have "length (ahead ps1) < length (ahead ps)"
      using shasm_input_get_less[OF g[symmetric]] True by (auto simp: shasm_ascii_defs)
    ultimately show ?thesis by simp
  next
    case False
    then have "(c, ps') = (c1, ps1)"
      using 1(2) g by (subst (asm) shasm_block_token_space.simps) simp
    then show ?thesis
      using shasm_input_get_less[OF g[symmetric]] shasm_input_get_le[OF g[symmetric]] by auto
  qed
qed

lemma token_comment_le:
  "shasm_block_token_comment ps = (c, ps') \<Longrightarrow> length (ahead ps') \<le> length (ahead ps)"
proof (induction ps rule: shasm_block_token_comment.induct)
  case (1 ps)
  obtain c1 ps1 where g: "shasm_input_get ps = (c1, ps1)" by (metis prod.exhaust)
  show ?case
  proof (cases "c1 \<noteq> SHASM_ASCII_LF \<and> c1 \<noteq> SHASM_INPUT_EOF \<and> c1 \<noteq> SHASM_INPUT_IOERR")
    case True
    then have "shasm_block_token_comment ps1 = (c, ps')"
      using 1(2) g by (subst (asm) shasm_block_token_comment.simps) simp
    then have "length (ahead ps') \<le> length (ahead ps1)"
      using 1(1)[OF g[symmetric] True] by simp
    then show ?thesis using shasm_input_get_le[OF g[symmetric]] by simp
  next
    case False
    then have "(c, ps') = (c1, ps1)"
      using 1(2) g by (subst (asm) shasm_block_token_comment.simps) auto
    then show ?thesis using shasm_input_get_le[OF g[symmetric]] by auto
  qed
qed

function shasm_block_token_skip ::
  "SHASM_BLOCK \<Rightarrow> SHASM_IFLSTATE \<Rightarrow> (int \<times> SHASM_BLOCK \<times> SHASM_IFLSTATE) option" where
  "shasm_block_token_skip pb ps =
     (case shasm_block_token_space ps of
        (c, ps) \<Rightarrow>
          if c = SHASM_INPUT_EOF then
            map_option (\<lambda>pb. (0, pb, ps))
              (shasm_block_seterr pb (shasm_input_count ps) SHASM_ERR_EOF)
          else if c = SHASM_INPUT_IOERR then
            map_option (\<lambda>pb. (0, pb, ps))
              (shasm_block_seterr pb (shasm_input_count ps) SHASM_ERR_IO)
          else if c \<noteq> SHASM_ASCII_AMPERSAND then
            Some (1, pb\<lparr>line := shasm_input_count ps\<rparr>, shasm_input_back ps)
          else
            (case shasm_block_token_comment ps of
               (c, ps) \<Rightarrow>
                 if c = SHASM_INPUT_EOF then
                   map_option (\<lambda>pb. (0, pb, ps))
                     (shasm_block_seterr pb (shasm_input_count ps) SHASM_ERR_EOF)
                 else if c = SHASM_INPUT_IOERR then
                   map_option (\<lambda>pb. (0, pb, ps))
                     (shasm_block_seterr pb (shasm_input_count ps) SHASM_ERR_IO)
                 else shasm_block_token_skip pb ps))"
  by pat_completeness auto
termination
proof (relation "measure (\<lambda>(pb, ps). length (ahead ps))", goal_cases)
  case 1
  then show ?case by simp
next
  case 2
  then show ?case
    using token_space_le[OF sym] token_comment_le[OF sym]
    by (fastforce simp: shasm_ascii_defs)
qed

definition shasm_block_token_stop :: "int \<Rightarrow> bool" where
  "shasm_block_token_stop c =
     (c = SHASM_ASCII_HT \<or> c = SHASM_ASCII_SP \<or> c = SHASM_ASCII_LF \<or>
      c = SHASM_ASCII_LPAREN \<or> c = SHASM_ASCII_RPAREN \<or>
      c = SHASM_ASCII_LSQR \<or> c = SHASM_ASCII_RSQR \<or>
      c = SHASM_ASCII_COMMA \<or> c = SHASM_ASCII_PERCENT \<or>
      c = SHASM_ASCII_SEMICOLON \<or> c = SHASM_ASCII_AMPERSAND \<or>
      c = SHASM_ASCII_DQUOTE \<or> c = SHASM_ASCII_SQUOTE \<or> c = SHASM_ASCII_LCURL)"

function shasm_block_token_more ::
  "SHASM_BLOCK \<Rightarrow> SHASM_IFLSTATE \<Rightarrow> (int \<times> int \<times> SHASM_BLOCK \<times> SHASM_IFLSTATE) option" where
  "shasm_block_token_more pb ps =
     (case shasm_input_get ps of
        (c, ps) \<Rightarrow>
          if c = SHASM_INPUT_EOF then
            map_option (\<lambda>pb. (0, c, pb, ps))
              (shasm_block_seterr pb (shasm_input_count ps) SHASM_ERR_EOF)
          else if c = SHASM_INPUT_IOERR then
            map_option (\<lambda>pb. (0, c, pb, ps))
              (shasm_block_seterr pb (shasm_input_count ps) SHASM_ERR_IO)
          else if shasm_block_token_stop c then Some (1, c, pb, ps)
          else if c < SHASM_ASCII_VISPRINT_MIN \<or> c > SHASM_ASCII_VISPRINT_MAX then
            map_option (\<lambda>pb. (0, c, pb, ps))
              (shasm_block_seterr pb (shasm_input_count ps) SHASM_ERR_TOKENCHAR)
          else
            (case shasm_block_addByte pb c of
               None \<Rightarrow> None
             | Some (ok, pb) \<Rightarrow>
                 if ok = 0 then
                   map_option (\<lambda>pb. (0, c, pb, ps))
                     (shasm_block_seterr pb (shasm_input_count ps) SHASM_ERR_HUGEBLOCK)
                 else shasm_block_token_more pb ps))"
  by pat_completeness auto
termination
  by (relation "measure (\<lambda>(pb, ps). length (ahead ps))")
     (auto intro: shasm_input_get_less simp: shasm_ascii_defs)

declare shasm_block_token_skip.simps [simp del] shasm_block_token_more.simps [simp del]

definition shasm_block_token_first ::
  "SHASM_BLOCK \<Rightarrow> SHASM_IFLSTATE \<Rightarrow> (int \<times> SHASM_BLOCK \<times> SHASM_IFLSTATE) option" where
  "shasm_block_token_first pb ps =
     (case shasm_input_get ps of
        (c, ps) \<Rightarrow>
          if c = SHASM_INPUT_EOF then
            map_option (\<lambda>pb. (0, pb, ps))
              (shasm_block_seterr pb (shasm_input_count ps) SHASM_ERR_EOF)
          else if c = SHASM_INPUT_IOERR then
            map_option (\<lambda>pb. (0, pb, ps))
              (shasm_block_seterr pb (shasm_input_count ps) SHASM_ERR_IO)
          else if c < SHASM_ASCII_VISPRINT_MIN \<or> c > SHASM_ASCII_VISPRINT_MAX then
            map_option (\<lambda>pb. (0, pb, ps))
              (shasm_block_seterr pb (shasm_input_count ps) SHASM_ERR_TOKENCHAR)
          else
            (case shasm_block_addByte pb c of
               None \<Rightarrow> None
             | Some (ok, pb) \<Rightarrow>
                 if ok = 0 then
                   map_option (\<lambda>pb. (0, pb, ps))
                     (shasm_block_seterr pb (shasm_input_count ps) SHASM_ERR_HUGEBLOCK)
                 else Some (1, pb, ps)))"

definition shasm_block_token_bar ::
  "SHASM_BLOCK \<Rightarrow> SHASM_IFLSTATE \<Rightarrow> (int \<times> SHASM_BLOCK \<times> SHASM_IFLSTATE) option" where
  "shasm_block_token_bar pb ps =
     (case shasm_input_get ps of
        (c, ps) \<Rightarrow>
          if c = SHASM_INPUT_EOF then
            map_option (\<lambda>pb. (0, pb, shasm_input_back ps))
              (shasm_block_seterr pb (shasm_input_count ps) SHASM_ERR_EOF)
          else if c = SHASM_INPUT_IOERR then
            map_option (\<lambda>pb. (0, pb, shasm_input_back ps))
              (shasm_block_seterr pb (shasm_input_count ps) SHASM_ERR_IO)
          else if c = SHASM_ASCII_SEMICOLON then
            (case shasm_block_addByte pb c of
               None \<Rightarrow> None
             | Some (ok, pb) \<Rightarrow>
                 if ok = 0 then
                   map_option (\<lambda>pb. (0, pb, ps))
                     (shasm_block_seterr pb (shasm_input_count ps) SHASM_ERR_HUGEBLOCK)
                 else Some (1, pb, ps))
          else Some (1, pb, shasm_input_back ps))"

definition shasm_block_token_tail ::
  "SHASM_BLOCK \<Rightarrow> SHASM_IFLSTATE \<Rightarrow> (int \<times> SHASM_BLOCK \<times> SHASM_IFLSTATE) option" where
  "shasm_block_token_tail pb ps =
     (case shasm_block_token_more pb ps of
        None \<Rightarrow> None
      | Some (status, c, pb, ps) \<Rightarrow>
          if status \<noteq> 0 \<and>
             (c = SHASM_ASCII_DQUOTE \<or> c = SHASM_ASCII_SQUOTE \<or> c = SHASM_ASCII_LCURL)
          then
            (case shasm_block_addByte pb c of
               None \<Rightarrow> None
             | Some (ok, pb) \<Rightarrow>
                 if ok = 0 then
                   map_option (\<lambda>pb. (0, pb, ps))
                     (shasm_block_seterr pb (shasm_input_count ps) SHASM_ERR_HUGEBLOCK)
                 else Some (status, pb, ps))
          else if status \<noteq> 0 then Some (status, pb, shasm_input_back ps)
          else Some (status, pb, ps))"

text \<open>The byte \<^verbatim>\<open>pb->pBuf[i]\<close>, when \<open>i\<close> is inside the buffer.\<close>

definition pBuf_at :: "SHASM_BLOCK \<Rightarrow> nat \<Rightarrow> int option" where
  "pBuf_at pb i = (if i < length (block_pBuf pb) then Some (uint (block_pBuf pb ! i)) else None)"

definition shasm_block_token ::
  "SHASM_BLOCK \<Rightarrow> SHASM_IFLSTATE \<Rightarrow> (int \<times> SHASM_BLOCK \<times> SHASM_IFLSTATE) option" where
  "shasm_block_token pb ps =
     Option.bind
       (if code pb \<noteq> SHASM_OKAY then Some (0, pb, ps) else shasm_block_token_skip pb ps)
       (\<lambda>(status, pb, ps).
     Option.bind
       (if status \<noteq> 0 then shasm_block_token_first (shasm_block_clear pb) ps
        else Some (status, pb, ps))
       (\<lambda>(status, pb, ps).
     Option.bind
       (if status \<noteq> 0 then
          Option.bind (pBuf_at pb 0) (\<lambda>pBuf0.
            if pBuf0 = SHASM_ASCII_BAR then shasm_block_token_bar pb ps
            else Some (status, pb, ps))
        else Some (status, pb, ps))
       (\<lambda>(status, pb, ps).
     if status \<noteq> 0 then
       Option.bind (pBuf_at pb 0) (\<lambda>pBuf0.
         if pBuf0 \<noteq> SHASM_ASCII_LPAREN \<and> pBuf0 \<noteq> SHASM_ASCII_RPAREN \<and>
            pBuf0 \<noteq> SHASM_ASCII_LSQR \<and> pBuf0 \<noteq> SHASM_ASCII_RSQR \<and>
            pBuf0 \<noteq> SHASM_ASCII_COMMA \<and> pBuf0 \<noteq> SHASM_ASCII_PERCENT \<and>
            pBuf0 \<noteq> SHASM_ASCII_SEMICOLON \<and> pBuf0 \<noteq> SHASM_ASCII_DQUOTE \<and>
            pBuf0 \<noteq> SHASM_ASCII_SQUOTE \<and> pBuf0 \<noteq> SHASM_ASCII_LCURL
         then
           Option.bind (pBuf_at pb 1) (\<lambda>pBuf1.
             if pBuf1 \<noteq> SHASM_ASCII_SEMICOLON then shasm_block_token_tail pb ps
             else Some (status, pb, ps))
         else Some (status, pb, ps))
     else Some (status, pb, ps))))"

lemma token_skip_success:
  "shasm_block_token_skip pb ps = Some (st, pb1, ps1) \<Longrightarrow> st \<noteq> 0 \<Longrightarrow>
     st = 1 \<and> (\<exists>n. pb1 = pb\<lparr>line := n\<rparr>)"
proof (induction pb ps rule: shasm_block_token_skip.induct)
  case (1 pb ps)
  obtain c pa where sp: "shasm_block_token_space ps = (c, pa)" by (metis prod.exhaust)
  obtain c' pc where cm: "shasm_block_token_comment pa = (c', pc)" by (metis prod.exhaust)
  show ?case
  proof (cases "c = SHASM_INPUT_EOF \<or> c = SHASM_INPUT_IOERR")
    case True
    then show ?thesis using 1(2,3) sp
      by (subst (asm) shasm_block_token_skip.simps) (auto simp: shasm_ascii_defs)
  next
    case False
    show ?thesis
    proof (cases "c \<noteq> SHASM_ASCII_AMPERSAND")
      case True
      then show ?thesis using 1(2,3) sp False
        by (subst (asm) shasm_block_token_skip.simps) auto
    next
      case amp: False
      show ?thesis
      proof (cases "c' = SHASM_INPUT_EOF \<or> c' = SHASM_INPUT_IOERR")
        case True
        then show ?thesis using 1(2,3) sp cm False amp
          by (subst (asm) shasm_block_token_skip.simps) (auto simp: shasm_ascii_defs)
      next
        case nf: False
        have "shasm_block_token_skip pb pc = Some (st, pb1, ps1)"
          using 1(2) sp cm False amp nf
          by (subst (asm) shasm_block_token_skip.simps) auto
        then show ?thesis
          using 1(1)[OF sp[symmetric] _ _ _ cm[symmetric]] False amp nf 1(3) by auto
      qed
    qed
  qed
qed

lemma block_ok_line: "block_ok (pb\<lparr>line := n\<rparr>) = block_ok pb"
  by (simp add: block_ok_def)

lemma pBuf_at_data:
  assumes "block_ok pb" and "block_data pb = b # bs"
  shows "pBuf_at pb 0 = Some (uint b)" and "\<exists>x. pBuf_at pb 1 = Some x"
proof -
  have l: "length (block_pBuf pb) \<ge> 32" using assms(1) by (auto simp: block_ok_def shasm_defs)
  have "block_pBuf pb ! 0 = b"
    using assms(2) l unfolding block_data_def
    by (metis append_take_drop_id nth_Cons_0 nth_append_left length_greater_0_conv list.distinct(1) take_eq_Nil)
  then show "pBuf_at pb 0 = Some (uint b)" using l by (auto simp add: pBuf_at_def)
  show "\<exists>x. pBuf_at pb 1 = Some x" using l by (simp add: pBuf_at_def)
qed

lemma uint_byte_id: "0 \<le> c \<Longrightarrow> c \<le> 255 \<Longrightarrow> uint (word_of_int c :: 8 word) = c"
  by (simp add: uint_word_of_int)

lemma shasm_block_token_single:
  assumes ok: "block_ok pb" and st: "code pb = SHASM_OKAY"
    and sk: "shasm_block_token_skip pb ps = Some (1, pb1, ps1)"
    and g: "shasm_input_get ps1 = (c, ps2)"
    and at: "c = SHASM_ASCII_LPAREN \<or> c = SHASM_ASCII_RPAREN \<or> c = SHASM_ASCII_LSQR \<or>
             c = SHASM_ASCII_RSQR \<or> c = SHASM_ASCII_COMMA \<or> c = SHASM_ASCII_PERCENT \<or>
             c = SHASM_ASCII_SEMICOLON \<or> c = SHASM_ASCII_DQUOTE \<or> c = SHASM_ASCII_SQUOTE \<or>
             c = SHASM_ASCII_LCURL"
  shows "\<exists>pb'. shasm_block_token pb ps = Some (1, pb', ps2) \<and>
           block_data pb' = [word_of_int c] \<and> code pb' = SHASM_OKAY"
proof -
  obtain n where pb1: "pb1 = pb\<lparr>line := n\<rparr>" using token_skip_success[OF sk] by auto
  let ?pc = "shasm_block_clear pb1"
  have okc: "block_ok ?pc" "code ?pc = SHASM_OKAY" "buf_len ?pc = 0" "block_data ?pc = []"
    using ok st pb1 block_ok_clear[of pb1] by (simp_all add: block_ok_line shasm_block_clear_def block_data_def)
  have rng: "0 \<le> c" "c \<le> 255" "\<not> (c < SHASM_ASCII_VISPRINT_MIN \<or> c > SHASM_ASCII_VISPRINT_MAX)"
    "c \<noteq> SHASM_INPUT_EOF" "c \<noteq> SHASM_INPUT_IOERR" "c \<noteq> SHASM_ASCII_BAR"
    using at by (auto simp: shasm_ascii_defs)
  obtain pb2 where ab: "shasm_block_addByte ?pc c = Some (1, pb2)" "block_ok pb2"
      "code pb2 = SHASM_OKAY" "block_data pb2 = [word_of_int c]"
    using shasm_block_addByte_room[OF okc(1,2) rng(1,2)] okc(3,4) by (auto simp: shasm_defs)
  have fi: "shasm_block_token_first ?pc ps1 = Some (1, pb2, ps2)"
    using g rng ab(1) by (simp add: shasm_block_token_first_def)
  have p0: "pBuf_at pb2 0 = Some c"
    using pBuf_at_data(1)[OF ab(2,4)] rng(1,2) by (simp add: uint_byte_id)
  obtain x where p1: "pBuf_at pb2 1 = Some x" using pBuf_at_data(2)[OF ab(2,4)] by blast
  have "shasm_block_token pb ps = Some (1, pb2, ps2)"
    using st sk fi p0 p1 rng(6) at by (auto simp add: shasm_block_token_def)
  then show ?thesis using ab by blast
qed


text \<open>
  A byte that can stand anywhere in a token of several characters: visible, printing and
  not a stop character.
\<close>

definition token_plain :: "8 word \<Rightarrow> bool" where
  "token_plain b =
     (SHASM_ASCII_VISPRINT_MIN \<le> uint b \<and> uint b \<le> SHASM_ASCII_VISPRINT_MAX \<and>
      \<not> shasm_block_token_stop (uint b))"

lemma shasm_input_get_Cons:
  "ahead ps = b # bs \<Longrightarrow> shasm_input_get ps = (uint b, ps\<lparr>ahead := bs, unread := Some b\<rparr>)"
  by (simp add: shasm_input_get_def)

lemma token_plain_facts:
  assumes "token_plain b"
  shows "uint b \<noteq> SHASM_INPUT_EOF" "uint b \<noteq> SHASM_INPUT_IOERR"
    "\<not> shasm_block_token_stop (uint b)"
    "\<not> (uint b < SHASM_ASCII_VISPRINT_MIN \<or> uint b > SHASM_ASCII_VISPRINT_MAX)"
    "0 \<le> uint b" "uint b \<le> 255"
  using assms by (auto simp: token_plain_def shasm_ascii_defs)

lemma token_more_run:
  assumes "block_ok pb" and "code pb = SHASM_OKAY" and "\<forall>b\<in>set bs. token_plain b"
    and "buf_len pb + int (length bs) \<le> SHASM_BLOCK_MAXBUFFER" and "ahead ps = bs @ rest"
  shows "\<exists>pb' ps'. shasm_block_token_more pb ps = shasm_block_token_more pb' ps' \<and>
           block_ok pb' \<and> code pb' = SHASM_OKAY \<and> line pb' = line pb \<and>
           buf_len pb' = buf_len pb + int (length bs) \<and>
           block_data pb' = block_data pb @ bs \<and> ahead ps' = rest \<and>
           io_fails ps' = io_fails ps \<and> line_at ps' = line_at ps"
  using assms
proof (induction bs arbitrary: pb ps)
  case Nil
  then show ?case by auto
next
  case (Cons b bs)
  let ?ps1 = "ps\<lparr>ahead := bs @ rest, unread := Some b\<rparr>"
  have g: "shasm_input_get ps = (uint b, ?ps1)"
    using Cons.prems(5) by (simp add: shasm_input_get_Cons)
  have pl: "token_plain b" using Cons.prems(3) by simp
  note f = token_plain_facts[OF pl]
  have room: "buf_len pb < SHASM_BLOCK_MAXBUFFER" using Cons.prems(4) by simp
  obtain pb1 where ab: "shasm_block_addByte pb (uint b) = Some (1, pb1)" "block_ok pb1"
      "code pb1 = SHASM_OKAY" "line pb1 = line pb" "buf_len pb1 = buf_len pb + 1"
      "block_data pb1 = block_data pb @ [b]"
    using shasm_block_addByte_room[OF Cons.prems(1,2) f(5,6) room] by auto
  have step: "shasm_block_token_more pb ps = shasm_block_token_more pb1 ?ps1"
    using g f ab(1) by (subst shasm_block_token_more.simps) simp
  have "\<exists>pb' ps'. shasm_block_token_more pb1 ?ps1 = shasm_block_token_more pb' ps' \<and>
           block_ok pb' \<and> code pb' = SHASM_OKAY \<and> line pb' = line pb1 \<and>
           buf_len pb' = buf_len pb1 + int (length bs) \<and>
           block_data pb' = block_data pb1 @ bs \<and> ahead ps' = rest \<and>
           io_fails ps' = io_fails ?ps1 \<and> line_at ps' = line_at ?ps1"
    using Cons.prems(3,4) ab by (intro Cons.IH) auto
  then obtain pb' ps' where r:
      "shasm_block_token_more pb1 ?ps1 = shasm_block_token_more pb' ps'"
      "block_ok pb'" "code pb' = SHASM_OKAY" "line pb' = line pb1"
      "buf_len pb' = buf_len pb1 + int (length bs)"
      "block_data pb' = block_data pb1 @ bs" "ahead ps' = rest"
      "io_fails ps' = io_fails ?ps1" "line_at ps' = line_at ?ps1"
    by blast
  show ?case
    apply (rule exI[of _ pb'], rule exI[of _ ps'])
    using step r ab by simp
qed

lemma shasm_uint_not_sentinel:
  "uint (b :: 8 word) \<noteq> SHASM_INPUT_EOF" "uint (b :: 8 word) \<noteq> SHASM_INPUT_IOERR"
  using uint_ge_0[of b] unfolding shasm_ascii_defs by arith+

lemma token_more_stop:
  assumes "ahead ps = s # rest" and "shasm_block_token_stop (uint s)"
  shows "shasm_block_token_more pb ps =
           Some (1, uint s, pb, ps\<lparr>ahead := rest, unread := Some s\<rparr>)"
  using assms
  by (subst shasm_block_token_more.simps)
     (simp add: shasm_input_get_Cons shasm_uint_not_sentinel)

lemma token_more_full:
  assumes "block_ok pb" and "code pb = SHASM_OKAY" and "buf_len pb = SHASM_BLOCK_MAXBUFFER"
    and "ahead ps = b # rest" and "token_plain b"
  shows "\<exists>pb' ps'. shasm_block_token_more pb ps = Some (0, uint b, pb', ps') \<and>
           code pb' = SHASM_ERR_HUGEBLOCK \<and> buf_len pb' = 0"
proof -
  note f = token_plain_facts[OF assms(5)]
  have "shasm_block_addByte pb (uint b) = Some (0, pb)"
    using shasm_block_addByte_full[OF assms(1) f(5,6) assms(3)] .
  then show ?thesis
    using assms(2,4) f
    by (subst shasm_block_token_more.simps)
       (simp add: shasm_input_get_Cons shasm_block_seterr_def shasm_block_clear_def)
qed

lemma token_space_plain:
  assumes "ahead ps = b # rest" and "token_plain b"
  shows "shasm_block_token_space ps = (uint b, ps\<lparr>ahead := rest, unread := Some b\<rparr>)"
  using assms
  by (subst shasm_block_token_space.simps)
     (auto simp add: shasm_input_get_Cons token_plain_def shasm_block_token_stop_def)

lemma token_skip_plain:
  assumes "ahead ps = b # rest" and "token_plain b"
  shows "\<exists>n. shasm_block_token_skip pb ps = Some (1, pb\<lparr>line := n\<rparr>, ps\<lparr>unread := None\<rparr>)"
proof -
  have "ps\<lparr>ahead := b # rest, unread := None\<rparr> = ps\<lparr>unread := None\<rparr>"
    using assms(1) by simp
  then show ?thesis
    using token_space_plain[OF assms] token_plain_facts[OF assms(2)] assms(2)
    by (subst shasm_block_token_skip.simps)
       (auto simp add: shasm_input_back_def token_plain_def shasm_block_token_stop_def)
qed

lemma token_first_plain:
  assumes "block_ok pb" and "code pb = SHASM_OKAY" and "ahead ps = b # rest" and "token_plain b"
  shows "\<exists>pb'. shasm_block_token_first (shasm_block_clear pb) ps =
             Some (1, pb', ps\<lparr>ahead := rest, unread := Some b\<rparr>) \<and>
           block_ok pb' \<and> code pb' = SHASM_OKAY \<and> buf_len pb' = 1 \<and>
           block_data pb' = [b] \<and> pBuf_at pb' 0 = Some (uint b) \<and> pBuf_at pb' 1 = Some 0"
proof -
  note f = token_plain_facts[OF assms(4)]
  let ?pc = "shasm_block_clear pb"
  have okc: "block_ok ?pc" "code ?pc = SHASM_OKAY" "buf_len ?pc = 0" "block_data ?pc = []"
    using assms(1,2) block_ok_clear[of pb]
    by (simp_all add: shasm_block_clear_def block_data_def)
  obtain pb2 where ab: "shasm_block_addByte ?pc (uint b) = Some (1, pb2)" "block_ok pb2"
      "code pb2 = SHASM_OKAY" "block_data pb2 = [b]" "buf_len pb2 = 1"
    using shasm_block_addByte_room[OF okc(1,2) f(5,6)] okc(3,4) by (auto simp: shasm_defs)
  have cap: "32 \<le> buf_cap pb" using assms(1) by (simp add: block_ok_def shasm_defs)
  have "block_pBuf pb2 = (replicate (nat (buf_cap pb)) 0)[0 := b]"
    using ab(1) assms(2) cap f(5,6)
    by (auto simp add: shasm_block_addByte_def shasm_block_clear_def Let_def split: if_splits)
  then have p1: "pBuf_at pb2 1 = Some 0" using cap by (simp add: pBuf_at_def)
  have "shasm_block_token_first ?pc ps = Some (1, pb2, ps\<lparr>ahead := rest, unread := Some b\<rparr>)"
    using assms(3) f ab(1) by (simp add: shasm_block_token_first_def shasm_input_get_Cons)
  then show ?thesis using ab p1 pBuf_at_data(1)[OF ab(2,4)] by blast
qed

lemma shasm_block_token_simple:
  assumes ok: "block_ok pb" and st: "code pb = SHASM_OKAY"
    and ah: "ahead ps = b # bs @ s # rest"
    and pl: "\<forall>x\<in>set (b # bs). token_plain x" and nb: "uint b \<noteq> SHASM_ASCII_BAR"
    and sp: "uint s = SHASM_ASCII_SP"
    and len: "int (length (b # bs)) \<le> SHASM_BLOCK_MAXBUFFER"
  shows "\<exists>pb' ps'. shasm_block_token pb ps = Some (1, pb', ps') \<and> code pb' = SHASM_OKAY \<and>
           block_data pb' = b # bs \<and> shasm_block_count pb' = int (length (b # bs)) \<and>
           ahead ps' = s # rest"
proof -
  have plb: "token_plain b" using pl by simp
  obtain n where sk: "shasm_block_token_skip pb ps = Some (1, pb\<lparr>line := n\<rparr>, ps\<lparr>unread := None\<rparr>)"
    using token_skip_plain[OF ah plb] by blast
  let ?p1 = "pb\<lparr>line := n\<rparr>" and ?s1 = "ps\<lparr>unread := None\<rparr>"
  let ?s2 = "?s1\<lparr>ahead := bs @ s # rest, unread := Some b\<rparr>"
  have ok1: "block_ok ?p1" "code ?p1 = SHASM_OKAY" using ok st by (simp_all add: block_ok_line)
  have ah1: "ahead ?s1 = b # (bs @ s # rest)" using ah by simp
  obtain pb2 where fi: "shasm_block_token_first (shasm_block_clear ?p1) ?s1 = Some (1, pb2, ?s2)"
      "block_ok pb2" "code pb2 = SHASM_OKAY" "buf_len pb2 = 1" "block_data pb2 = [b]"
      "pBuf_at pb2 0 = Some (uint b)" "pBuf_at pb2 1 = Some 0"
    using token_first_plain[OF ok1 ah1 plb] by blast
  have ah2: "ahead ?s2 = bs @ (s # rest)" by simp
  have room: "buf_len pb2 + int (length bs) \<le> SHASM_BLOCK_MAXBUFFER" using len fi(4) by simp
  obtain pb3 ps3 where run: "shasm_block_token_more pb2 ?s2 = shasm_block_token_more pb3 ps3"
      "block_ok pb3" "code pb3 = SHASM_OKAY" "buf_len pb3 = buf_len pb2 + int (length bs)"
      "block_data pb3 = block_data pb2 @ bs" "ahead ps3 = s # rest"
    using token_more_run[OF fi(2,3) _ room ah2] pl by auto
  have stp: "shasm_block_token_stop (uint s)" using sp by (simp add: shasm_block_token_stop_def)
  have mo: "shasm_block_token_more pb2 ?s2 = Some (1, uint s, pb3, ps3\<lparr>ahead := rest, unread := Some s\<rparr>)"
    using run(1) token_more_stop[OF run(6) stp] by simp
  have tl: "shasm_block_token_tail pb2 ?s2 = Some (1, pb3, ps3\<lparr>ahead := s # rest, unread := None\<rparr>)"
    using mo sp by (simp add: shasm_block_token_tail_def shasm_input_back_def shasm_ascii_defs)
  note f = token_plain_facts[OF plb]
  have na: "uint b \<noteq> SHASM_ASCII_LPAREN" "uint b \<noteq> SHASM_ASCII_RPAREN"
    "uint b \<noteq> SHASM_ASCII_LSQR" "uint b \<noteq> SHASM_ASCII_RSQR" "uint b \<noteq> SHASM_ASCII_COMMA"
    "uint b \<noteq> SHASM_ASCII_PERCENT" "uint b \<noteq> SHASM_ASCII_SEMICOLON"
    "uint b \<noteq> SHASM_ASCII_DQUOTE" "uint b \<noteq> SHASM_ASCII_SQUOTE" "uint b \<noteq> SHASM_ASCII_LCURL"
    using f(3) by (auto simp: shasm_block_token_stop_def)
  have "shasm_block_token pb ps = Some (1, pb3, ps3\<lparr>ahead := s # rest, unread := None\<rparr>)"
    using st sk fi(1,6,7) nb na tl by (simp add: shasm_block_token_def shasm_ascii_defs)
  then show ?thesis using run fi by (auto simp: shasm_block_count_def)
qed

lemma shasm_block_token_huge:
  assumes ok: "block_ok pb" and st: "code pb = SHASM_OKAY"
    and ah: "ahead ps = b # bs @ x # rest"
    and pl: "\<forall>x\<in>set (b # bs). token_plain x" and nb: "uint b \<noteq> SHASM_ASCII_BAR"
    and px: "token_plain x"
    and len: "int (length (b # bs)) = SHASM_BLOCK_MAXBUFFER"
  shows "\<exists>pb' ps'. shasm_block_token pb ps = Some (0, pb', ps') \<and>
           code pb' = SHASM_ERR_HUGEBLOCK"
proof -
  have plb: "token_plain b" using pl by simp
  obtain n where sk: "shasm_block_token_skip pb ps = Some (1, pb\<lparr>line := n\<rparr>, ps\<lparr>unread := None\<rparr>)"
    using token_skip_plain[OF ah plb] by blast
  let ?p1 = "pb\<lparr>line := n\<rparr>" and ?s1 = "ps\<lparr>unread := None\<rparr>"
  let ?s2 = "?s1\<lparr>ahead := bs @ x # rest, unread := Some b\<rparr>"
  have ok1: "block_ok ?p1" "code ?p1 = SHASM_OKAY" using ok st by (simp_all add: block_ok_line)
  have ah1: "ahead ?s1 = b # (bs @ x # rest)" using ah by simp
  obtain pb2 where fi: "shasm_block_token_first (shasm_block_clear ?p1) ?s1 = Some (1, pb2, ?s2)"
      "block_ok pb2" "code pb2 = SHASM_OKAY" "buf_len pb2 = 1" "block_data pb2 = [b]"
      "pBuf_at pb2 0 = Some (uint b)" "pBuf_at pb2 1 = Some 0"
    using token_first_plain[OF ok1 ah1 plb] by blast
  have ah2: "ahead ?s2 = bs @ (x # rest)" by simp
  have room: "buf_len pb2 + int (length bs) \<le> SHASM_BLOCK_MAXBUFFER" using len fi(4) by simp
  obtain pb3 ps3 where run: "shasm_block_token_more pb2 ?s2 = shasm_block_token_more pb3 ps3"
      "block_ok pb3" "code pb3 = SHASM_OKAY" "buf_len pb3 = buf_len pb2 + int (length bs)"
      "block_data pb3 = block_data pb2 @ bs" "ahead ps3 = x # rest"
    using token_more_run[OF fi(2,3) _ room ah2] pl by auto
  have full: "buf_len pb3 = SHASM_BLOCK_MAXBUFFER" using run(4) fi(4) len by simp
  obtain pb4 ps4 where mo: "shasm_block_token_more pb2 ?s2 = Some (0, uint x, pb4, ps4)"
      "code pb4 = SHASM_ERR_HUGEBLOCK"
    using run(1) token_more_full[OF run(2,3) full run(6) px] by auto
  have tl: "shasm_block_token_tail pb2 ?s2 = Some (0, pb4, ps4)"
    using mo by (simp add: shasm_block_token_tail_def)
  note f = token_plain_facts[OF plb]
  have na: "uint b \<noteq> SHASM_ASCII_LPAREN" "uint b \<noteq> SHASM_ASCII_RPAREN"
    "uint b \<noteq> SHASM_ASCII_LSQR" "uint b \<noteq> SHASM_ASCII_RSQR" "uint b \<noteq> SHASM_ASCII_COMMA"
    "uint b \<noteq> SHASM_ASCII_PERCENT" "uint b \<noteq> SHASM_ASCII_SEMICOLON"
    "uint b \<noteq> SHASM_ASCII_DQUOTE" "uint b \<noteq> SHASM_ASCII_SQUOTE" "uint b \<noteq> SHASM_ASCII_LCURL"
    using f(3) by (auto simp: shasm_block_token_stop_def)
  have "shasm_block_token pb ps = Some (0, pb4, ps4)"
    using st sk fi(1,6,7) nb na tl by (simp add: shasm_block_token_def shasm_ascii_defs)
  then show ?thesis using mo by auto
qed


text \<open>
  From a new block reader, a token of 32767 letters \<open>A\<close> followed by a space is read
  with success and stored with length 32767; one of 32768 letters fails with
  \<^verbatim>\<open>SHASM_ERR_HUGEBLOCK\<close>.
\<close>

lemma token_plain_A: "token_plain 0x41"
  by (simp add: token_plain_def shasm_block_token_stop_def shasm_ascii_defs)

lemma shasm_block_token_32767:
  "\<exists>pb' ps'.
     shasm_block_token shasm_block_alloc
       \<lparr>ahead = 0x41 # replicate 32766 0x41 @ [0x20], io_fails = False, unread = None,
        line_at = (\<lambda>n. 1)\<rparr> = Some (1, pb', ps') \<and>
     code pb' = SHASM_OKAY \<and> shasm_block_count pb' = 32767 \<and>
     block_data pb' = 0x41 # replicate 32766 0x41"
proof -
  let ?ps = "\<lparr>ahead = 0x41 # replicate 32766 0x41 @ [0x20], io_fails = False, unread = None,
        line_at = (\<lambda>n. 1)\<rparr>"
  have ah: "ahead ?ps = 0x41 # replicate 32766 0x41 @ 0x20 # []" by simp
  have pl: "\<forall>x\<in>set (0x41 # replicate 32766 0x41). token_plain x"
    using token_plain_A by simp
  have "\<exists>pb' ps'. shasm_block_token shasm_block_alloc ?ps = Some (1, pb', ps') \<and>
          code pb' = SHASM_OKAY \<and> block_data pb' = 0x41 # replicate 32766 0x41 \<and>
          shasm_block_count pb' = int (length (0x41 # replicate 32766 (0x41 :: 8 word))) \<and>
          ahead ps' = 0x20 # []"
    by (rule shasm_block_token_simple[OF block_ok_alloc _ ah pl])
       (simp_all add: shasm_block_alloc_def shasm_ascii_defs shasm_defs)
  then show ?thesis by auto
qed

lemma shasm_block_token_32768:
  "\<exists>pb' ps'.
     shasm_block_token shasm_block_alloc
       \<lparr>ahead = 0x41 # replicate 32766 0x41 @ [0x41, 0x20], io_fails = False, unread = None,
        line_at = (\<lambda>n. 1)\<rparr> = Some (0, pb', ps') \<and>
     code pb' = SHASM_ERR_HUGEBLOCK"
proof -
  let ?ps = "\<lparr>ahead = 0x41 # replicate 32766 0x41 @ [0x41, 0x20], io_fails = False, unread = None,
        line_at = (\<lambda>n. 1)\<rparr>"
  have ah: "ahead ?ps = 0x41 # replicate 32766 0x41 @ 0x41 # [0x20]" by simp
  have pl: "\<forall>x\<in>set (0x41 # replicate 32766 0x41). token_plain x"
    using token_plain_A by simp
  show ?thesis
    by (rule shasm_block_token_huge[OF block_ok_alloc _ ah pl _ token_plain_A])
       (simp_all add: shasm_block_alloc_def shasm_ascii_defs shasm_defs)
qed

section \<open>Block reader states that calls can produce\<close>

text \<open>
  The block reader states that can come about: the one \<^verbatim>\<open>shasm_block_alloc\<close> makes and
  those that the functions changing a block reader make from such a state.  These are
  \<^verbatim>\<open>shasm_block_clear\<close>, \<^verbatim>\<open>shasm_block_seterr\<close>, \<^verbatim>\<open>shasm_block_addByte\<close>,
  \<^verbatim>\<open>shasm_block_ptr\<close> and the assignment to the line field in
  \<^verbatim>\<open>shasm_block_token\<close>; the token reader and the encoders change a block reader
  only through them (\<open>reach_token\<close>, \<open>reach_encode\<close>).
\<close>

inductive shasm_block_reachable :: "SHASM_BLOCK \<Rightarrow> bool" where
  reach_alloc: "shasm_block_reachable shasm_block_alloc"
| reach_clear: "shasm_block_reachable pb \<Longrightarrow> shasm_block_reachable (shasm_block_clear pb)"
| reach_seterr:
    "shasm_block_reachable pb \<Longrightarrow> shasm_block_seterr pb n err = Some pb' \<Longrightarrow>
       shasm_block_reachable pb'"
| reach_addByte:
    "shasm_block_reachable pb \<Longrightarrow> shasm_block_addByte pb c = Some (ok, pb') \<Longrightarrow>
       shasm_block_reachable pb'"
| reach_ptr: "shasm_block_reachable pb \<Longrightarrow> shasm_block_reachable (snd (shasm_block_ptr pb null_term))"
| reach_line: "shasm_block_reachable pb \<Longrightarrow> shasm_block_reachable (pb\<lparr>line := n\<rparr>)"

lemma block_ok_ptr: "block_ok pb \<Longrightarrow> block_ok (snd (shasm_block_ptr pb null_term))"
  by (simp add: shasm_block_ptr_def block_ok_def Let_def)

lemma shasm_block_reachable_ok: "shasm_block_reachable pb \<Longrightarrow> block_ok pb"
proof (induction rule: shasm_block_reachable.induct)
  case reach_alloc
  then show ?case by (rule block_ok_alloc)
next
  case (reach_clear pb)
  then show ?case by (simp add: block_ok_clear)
next
  case (reach_seterr pb n err pb')
  then show ?case using block_ok_seterr by blast
next
  case (reach_addByte pb c ok pb')
  then show ?case using block_ok_addByte by blast
next
  case (reach_ptr pb null_term)
  then show ?case by (simp add: block_ok_ptr)
next
  case (reach_line pb n)
  then show ?case by (simp add: block_ok_line)
qed

lemma reach_seterr_map:
  "shasm_block_reachable pb \<Longrightarrow>
     map_option f (shasm_block_seterr pb n err) = Some r \<Longrightarrow>
     \<exists>pb'. r = f pb' \<and> shasm_block_reachable pb'"
  by (auto intro: reach_seterr)

lemma reach_token_skip:
  "shasm_block_reachable pb \<Longrightarrow> shasm_block_token_skip pb ps = Some (st, pb', ps') \<Longrightarrow>
     shasm_block_reachable pb'"
proof (induction pb ps rule: shasm_block_token_skip.induct)
  case (1 pb ps)
  obtain c pa where sp: "shasm_block_token_space ps = (c, pa)" by (metis prod.exhaust)
  obtain c' pc where cm: "shasm_block_token_comment pa = (c', pc)" by (metis prod.exhaust)
  show ?case
  proof (cases "c = SHASM_INPUT_EOF \<or> c = SHASM_INPUT_IOERR")
    case True
    then show ?thesis using 1(2,3) sp
      by (subst (asm) shasm_block_token_skip.simps)
         (auto simp: shasm_ascii_defs intro: reach_seterr split: if_splits)
  next
    case False
    show ?thesis
    proof (cases "c \<noteq> SHASM_ASCII_AMPERSAND")
      case True
      then show ?thesis using 1(2,3) sp False
        by (subst (asm) shasm_block_token_skip.simps) (auto intro: reach_line)
    next
      case amp: False
      show ?thesis
      proof (cases "c' = SHASM_INPUT_EOF \<or> c' = SHASM_INPUT_IOERR")
        case True
        then show ?thesis using 1(2,3) sp cm False amp
          by (subst (asm) shasm_block_token_skip.simps)
             (auto simp: shasm_ascii_defs intro: reach_seterr split: if_splits)
      next
        case nf: False
        have "shasm_block_token_skip pb pc = Some (st, pb', ps')"
          using 1(3) sp cm False amp nf
          by (subst (asm) shasm_block_token_skip.simps) auto
        then show ?thesis
          using 1(1)[OF sp[symmetric] _ _ _ cm[symmetric]] False amp nf 1(2) by auto
      qed
    qed
  qed
qed

lemma reach_token_first:
  "shasm_block_reachable pb \<Longrightarrow> shasm_block_token_first pb ps = Some (st, pb', ps') \<Longrightarrow>
     shasm_block_reachable pb'"
  by (auto simp: shasm_block_token_first_def
      split: prod.splits if_splits option.splits intro: reach_seterr reach_addByte)

lemma reach_token_bar:
  "shasm_block_reachable pb \<Longrightarrow> shasm_block_token_bar pb ps = Some (st, pb', ps') \<Longrightarrow>
     shasm_block_reachable pb'"
  by (auto simp: shasm_block_token_bar_def
      split: prod.splits if_splits option.splits intro: reach_seterr reach_addByte)

lemma reach_token_more:
  "shasm_block_reachable pb \<Longrightarrow> shasm_block_token_more pb ps = Some (st, c, pb', ps') \<Longrightarrow>
     shasm_block_reachable pb'"
proof (induction pb ps rule: shasm_block_token_more.induct)
  case (1 pb ps)
  obtain c1 ps1 where g: "shasm_input_get ps = (c1, ps1)" by (metis prod.exhaust)
  show ?case
  proof (cases "c1 = SHASM_INPUT_EOF \<or> c1 = SHASM_INPUT_IOERR \<or> shasm_block_token_stop c1 \<or>
                c1 < SHASM_ASCII_VISPRINT_MIN \<or> c1 > SHASM_ASCII_VISPRINT_MAX")
    case True
    then show ?thesis using 1(2,3) g
      by (subst (asm) shasm_block_token_more.simps)
         (auto intro: reach_seterr split: if_splits)
  next
    case False
    then obtain ok pb1 where ab: "shasm_block_addByte pb c1 = Some (ok, pb1)"
      using 1(3) g by (subst (asm) shasm_block_token_more.simps) (auto split: option.splits)
    have r1: "shasm_block_reachable pb1" using reach_addByte[OF 1(2) ab] .
    show ?thesis
    proof (cases "ok = 0")
      case True
      then show ?thesis using 1(3) g False ab r1
        by (subst (asm) shasm_block_token_more.simps) (auto intro: reach_seterr)
    next
      case nz: False
      have m: "shasm_block_token_more pb1 ps1 = Some (st, c, pb', ps')"
        using 1(3) g False ab nz by (subst (asm) shasm_block_token_more.simps) auto
      have f: "c1 \<noteq> SHASM_INPUT_EOF" "c1 \<noteq> SHASM_INPUT_IOERR" "\<not> shasm_block_token_stop c1"
        "\<not> (c1 < SHASM_ASCII_VISPRINT_MIN \<or> SHASM_ASCII_VISPRINT_MAX < c1)"
        using False by auto
      show ?thesis
        by (rule 1(1)[OF g[symmetric] f ab refl nz r1 m])
    qed
  qed
qed

lemma reach_token_tail:
  "shasm_block_reachable pb \<Longrightarrow> shasm_block_token_tail pb ps = Some (st, pb', ps') \<Longrightarrow>
     shasm_block_reachable pb'"
  by (auto simp: shasm_block_token_tail_def
      split: prod.splits if_splits option.splits
      intro: reach_seterr reach_addByte dest: reach_token_more)

lemma reach_token:
  assumes "shasm_block_reachable pb" and "shasm_block_token pb ps = Some (st, pb', ps')"
  shows "shasm_block_reachable pb'"
proof -
  obtain s1 p1 i1 where a1:
      "(if code pb \<noteq> SHASM_OKAY then Some (0, pb, ps) else shasm_block_token_skip pb ps) =
         Some (s1, p1, i1)"
    using assms(2) by (auto simp: shasm_block_token_def Option.bind_eq_Some_conv)
  have r1: "shasm_block_reachable p1"
    using a1 assms(1) reach_token_skip by (auto split: if_splits)
  obtain s2 p2 i2 where a2:
      "(if s1 \<noteq> 0 then shasm_block_token_first (shasm_block_clear p1) i1
        else Some (s1, p1, i1)) = Some (s2, p2, i2)"
    using assms(2) a1 by (auto simp: shasm_block_token_def Option.bind_eq_Some_conv)
  have r2: "shasm_block_reachable p2"
    using a2 r1 reach_token_first[OF reach_clear[OF r1]] by (auto split: if_splits)
  obtain s3 p3 i3 where a3:
      "(if s2 \<noteq> 0 then
          Option.bind (pBuf_at p2 0) (\<lambda>pBuf0.
            if pBuf0 = SHASM_ASCII_BAR then shasm_block_token_bar p2 i2
            else Some (s2, p2, i2))
        else Some (s2, p2, i2)) = Some (s3, p3, i3)"
    using assms(2) a1 a2 by (auto simp: shasm_block_token_def Option.bind_eq_Some_conv)
  have r3: "shasm_block_reachable p3"
    using a3 r2 reach_token_bar[OF r2]
    by (auto simp: Option.bind_eq_Some_conv split: if_splits)
  have "(if s3 \<noteq> 0 then
       Option.bind (pBuf_at p3 0) (\<lambda>pBuf0.
         if pBuf0 \<noteq> SHASM_ASCII_LPAREN \<and> pBuf0 \<noteq> SHASM_ASCII_RPAREN \<and>
            pBuf0 \<noteq> SHASM_ASCII_LSQR \<and> pBuf0 \<noteq> SHASM_ASCII_RSQR \<and>
            pBuf0 \<noteq> SHASM_ASCII_COMMA \<and> pBuf0 \<noteq> SHASM_ASCII_PERCENT \<and>
            pBuf0 \<noteq> SHASM_ASCII_SEMICOLON \<and> pBuf0 \<noteq> SHASM_ASCII_DQUOTE \<and>
            pBuf0 \<noteq> SHASM_ASCII_SQUOTE \<and> pBuf0 \<noteq> SHASM_ASCII_LCURL
         then
           Option.bind (pBuf_at p3 1) (\<lambda>pBuf1.
             if pBuf1 \<noteq> SHASM_ASCII_SEMICOLON then shasm_block_token_tail p3 i3
             else Some (s3, p3, i3))
         else Some (s3, p3, i3))
     else Some (s3, p3, i3)) = Some (st, pb', ps')"
    using assms(2) a1 a2 a3 by (simp add: shasm_block_token_def)
  then have "pb' = p3 \<or> shasm_block_token_tail p3 i3 = Some (st, pb', ps')"
    by (auto simp: Option.bind_eq_Some_conv split: if_splits)
  then show ?thesis using r3 reach_token_tail[OF r3] by blast
qed


lemma reach_addBytes:
  "shasm_block_reachable pb \<Longrightarrow> shasm_block_addBytes pb bs = Some (st, pb') \<Longrightarrow>
     shasm_block_reachable pb'"
proof (induction bs arbitrary: pb)
  case Nil
  then show ?case by simp
next
  case (Cons b bs)
  obtain ok pb1 where ab: "shasm_block_addByte pb (uint b) = Some (ok, pb1)"
    using Cons.prems(2) by (auto split: option.splits)
  have r1: "shasm_block_reachable pb1" using reach_addByte[OF Cons.prems(1) ab] .
  show ?case
  proof (cases "ok = 0")
    case True
    then show ?thesis using Cons.prems(2) ab r1 by simp
  next
    case False
    then have "shasm_block_addBytes pb1 bs = Some (st, pb')" using Cons.prems(2) ab by simp
    then show ?thesis using Cons.IH[OF r1] by simp
  qed
qed

lemma reach_addNext:
  "shasm_block_reachable pb \<Longrightarrow> shasm_block_addNext status pb c = Some (st, pb') \<Longrightarrow>
     shasm_block_reachable pb'"
  by (auto simp: shasm_block_addNext_def split: if_splits option.splits intro: reach_addByte)

lemma reach_ereg:
  "shasm_block_reachable pb \<Longrightarrow> shasm_block_ereg pb e penc pt = Some (st, pb', pt') \<Longrightarrow>
     shasm_block_reachable pb'"
  by (auto simp: shasm_block_ereg_def Let_def
      split: if_splits option.splits prod.splits dest: reach_addBytes)


lemma reach_addNext2:
  assumes "shasm_block_reachable pb"
    and "(case shasm_block_addNext status pb a of
            None \<Rightarrow> None
          | Some (status, pb) \<Rightarrow> shasm_block_addNext status pb b) = Some (st, pb')"
  shows "shasm_block_reachable pb'"
proof -
  obtain s1 p1 where a: "shasm_block_addNext status pb a = Some (s1, p1)"
      "shasm_block_addNext s1 p1 b = Some (st, pb')"
    using assms(2) by (auto split: option.splits)
  show ?thesis using reach_addNext[OF reach_addNext[OF assms(1) a(1)] a(2)] .
qed

lemma reach_utf16_bmp:
  assumes "shasm_block_reachable pb" and "shasm_block_utf16 pb e big = Some (st, pb')"
    and "e < SHASM_BLOCK_MINSUPPLEMENTAL"
  shows "shasm_block_reachable pb'"
proof -
  have "\<exists>status a b. (case shasm_block_addNext status pb a of
            None \<Rightarrow> None
          | Some (status, pb) \<Rightarrow> shasm_block_addNext status pb b) = Some (st, pb')"
    using assms(2,3)
    apply (subst (asm) shasm_block_utf16.simps)
    apply (simp add: Let_def split: if_splits)
    by blast+
  then show ?thesis using reach_addNext2[OF assms(1)] by blast
qed


lemma reach_utf16:
  assumes r: "shasm_block_reachable pb" and u: "shasm_block_utf16 pb e big = Some (st, pb')"
  shows "shasm_block_reachable pb'"
proof (cases "e < SHASM_BLOCK_MINSUPPLEMENTAL \<or> code pb \<noteq> SHASM_OKAY")
  case True
  then show ?thesis
  proof
    assume "e < SHASM_BLOCK_MINSUPPLEMENTAL"
    then show ?thesis using reach_utf16_bmp[OF r u] by simp
  next
    assume "code pb \<noteq> SHASM_OKAY"
    then have "pb' = pb" using u
      by (subst (asm) shasm_block_utf16.simps)
         (simp add: Let_def shasm_block_addNext_def split: if_splits)
    then show ?thesis using r by simp
  qed
next
  case False
  have rng: "\<not> (e < 0 \<or> e > SHASM_BLOCK_MAXCODE)"
    using u by (subst (asm) shasm_block_utf16.simps) (simp split: if_splits)
  obtain s1 s2 where p: "shasm_block_pair e = Some (s1, s2)"
    using False rng by (auto simp: shasm_block_pair_def Let_def)
  obtain ok p1 where h: "shasm_block_utf16 pb s1 big = Some (ok, p1)"
    using u rng False p
    by (subst (asm) shasm_block_utf16.simps) (auto simp: Let_def split: option.splits)
  have r1: "shasm_block_reachable p1"
    using reach_utf16_bmp[OF r h pair_hi_small[OF p]] .
  have "\<exists>status a b. (case shasm_block_addNext status p1 a of
            None \<Rightarrow> None
          | Some (status, pb) \<Rightarrow> shasm_block_addNext status pb b) = Some (st, pb')"
    using u rng False p h
    apply (subst (asm) shasm_block_utf16.simps)
    apply (simp add: Let_def split: if_splits)
    by blast+
  then show ?thesis using reach_addNext2[OF r1] by blast
qed

lemma reach_utf32:
  assumes r: "shasm_block_reachable pb" and u: "shasm_block_utf32 pb e big = Some (st, pb')"
  shows "shasm_block_reachable pb'"
proof -
  obtain s1 p1 s2 p2 s3 p3 a b c d s0 where
      "shasm_block_addNext s0 pb a = Some (s1, p1)"
      "shasm_block_addNext s1 p1 b = Some (s2, p2)"
      "shasm_block_addNext s2 p2 c = Some (s3, p3)"
      "shasm_block_addNext s3 p3 d = Some (st, pb')"
    using u by (auto simp: shasm_block_utf32_def Let_def split: if_splits option.splits)
  then show ?thesis using r reach_addNext by blast
qed

lemma reach_utf8_tail:
  assumes "shasm_block_reachable pb"
    and "(case shasm_block_addNext status pb i of
            None \<Rightarrow> None
          | Some (status, pb) \<Rightarrow>
              if status \<noteq> 0 then shasm_block_addBytes pb xs else Some (status, pb)) =
         Some (st, pb')"
  shows "shasm_block_reachable pb'"
proof -
  obtain s1 p1 where a: "shasm_block_addNext status pb i = Some (s1, p1)"
      "(if s1 \<noteq> 0 then shasm_block_addBytes p1 xs else Some (s1, p1)) = Some (st, pb')"
    using assms(2) by (auto split: option.splits)
  have "shasm_block_reachable p1" using reach_addNext[OF assms(1) a(1)] .
  then show ?thesis using a(2) reach_addBytes by (auto split: if_splits)
qed

lemma reach_utf8_plain:
  assumes r: "shasm_block_reachable pb" and u: "shasm_block_utf8 pb e 0 = Some (st, pb')"
  shows "shasm_block_reachable pb'"
proof -
  have "pb' = pb \<or> (\<exists>status i xs. (case shasm_block_addNext status pb i of
            None \<Rightarrow> None
          | Some (status, pb) \<Rightarrow>
              if status \<noteq> 0 then shasm_block_addBytes pb xs else Some (status, pb)) =
         Some (st, pb'))"
    using u
    apply (subst (asm) shasm_block_utf8.simps)
    apply (simp add: Let_def split: if_splits prod.splits)
    by blast+
  then show ?thesis using r reach_utf8_tail[OF r] by blast
qed


lemma reach_utf8:
  assumes r: "shasm_block_reachable pb" and u: "shasm_block_utf8 pb e cesu8 = Some (st, pb')"
  shows "shasm_block_reachable pb'"
proof (cases "code pb \<noteq> SHASM_OKAY \<or> cesu8 = 0 \<or> e < SHASM_BLOCK_MINSUPPLEMENTAL")
  case True
  have "pb' = pb \<or> (\<exists>status i xs. (case shasm_block_addNext status pb i of
            None \<Rightarrow> None
          | Some (status, pb) \<Rightarrow>
              if status \<noteq> 0 then shasm_block_addBytes pb xs else Some (status, pb)) =
         Some (st, pb'))"
    using u True
    apply (subst (asm) shasm_block_utf8.simps)
    apply (simp add: Let_def split: if_splits prod.splits)
    by blast+
  then show ?thesis using r reach_utf8_tail[OF r] by blast
next
  case False
  have rng: "\<not> (e < 0 \<or> e > SHASM_BLOCK_MAXCODE)"
    using u by (subst (asm) shasm_block_utf8.simps) (simp split: if_splits)
  obtain s1 s2 where p: "shasm_block_pair e = Some (s1, s2)"
    using False rng by (auto simp: shasm_block_pair_def Let_def)
  obtain ok p1 where h: "shasm_block_utf8 pb s1 0 = Some (ok, p1)"
    using u rng False p
    by (subst (asm) shasm_block_utf8.simps) (auto simp: Let_def split: option.splits)
  have r1: "shasm_block_reachable p1" using reach_utf8_plain[OF r h] .
  have "pb' = p1 \<or> (\<exists>status i xs. (case shasm_block_addNext status p1 i of
            None \<Rightarrow> None
          | Some (status, pb) \<Rightarrow>
              if status \<noteq> 0 then shasm_block_addBytes pb xs else Some (status, pb)) =
         Some (st, pb'))"
    using u rng False p h
    apply (subst (asm) shasm_block_utf8.simps)
    apply (simp add: Let_def split: if_splits prod.splits)
    by blast+
  then show ?thesis using r1 reach_utf8_tail[OF r1] by blast
qed

lemma reach_encode:
  assumes r: "shasm_block_reachable pb"
    and u: "shasm_block_encode pb e penc o_over o_strict pt = Some (st, pb', pt')"
  shows "shasm_block_reachable pb'"
proof (cases "e > SHASM_BLOCK_MAXCODE \<or>
           (o_strict \<noteq> 0 \<and> SHASM_BLOCK_MINSURROGATE \<le> e \<and> e \<le> SHASM_BLOCK_MAXSURROGATE)")
  case True
  then show ?thesis using u reach_ereg[OF r] by (simp add: encode_is_ereg)
next
  case False
  show ?thesis
  proof (cases "code pb = SHASM_OKAY")
    case err: False
    then have "pb' = pb" using u
      by (simp add: shasm_block_encode_def Let_def split: if_splits)
    then show ?thesis using r by simp
  next
    case True
    have e0: "\<not> e < 0" using u by (simp add: shasm_block_encode_def split: if_splits)
    have m: "\<not> SHASM_BLOCK_MAXCODE < e"
      "\<not> (o_strict \<noteq> 0 \<and> SHASM_BLOCK_MINSURROGATE \<le> e \<and> e \<le> SHASM_BLOCK_MAXSURROGATE)"
      using False by auto
    note d = shasm_block_encode_def Let_def
    show ?thesis
    proof (cases o_over)
      case SHASM_BLOCK_OMODE_NONE
      then have "(case shasm_block_ereg pb e penc pt of
                    None \<Rightarrow> None
                  | Some (ok, pb, pt) \<Rightarrow> Some ((if ok = 0 then 0 else 1), pb, pt)) =
                 Some (st, pb', pt')"
        using u True m e0 by (simp add: d)
      then show ?thesis using reach_ereg[OF r] by (auto split: option.splits)
    next
      case SHASM_BLOCK_OMODE_UTF8
      then have "(case shasm_block_utf8 pb e 0 of
                    None \<Rightarrow> None
                  | Some (ok, pb) \<Rightarrow> Some ((if ok = 0 then 0 else 1), pb, pt)) =
                 Some (st, pb', pt')"
        using u True m e0 by (simp add: d)
      then show ?thesis using reach_utf8[OF r] by (auto split: option.splits)
    next
      case SHASM_BLOCK_OMODE_CESU8
      then have "(case shasm_block_utf8 pb e 1 of
                    None \<Rightarrow> None
                  | Some (ok, pb) \<Rightarrow> Some ((if ok = 0 then 0 else 1), pb, pt)) =
                 Some (st, pb', pt')"
        using u True m e0 by (simp add: d)
      then show ?thesis using reach_utf8[OF r] by (auto split: option.splits)
    next
      case SHASM_BLOCK_OMODE_U16LE
      then have "(case shasm_block_utf16 pb e 0 of
                    None \<Rightarrow> None
                  | Some (ok, pb) \<Rightarrow> Some ((if ok = 0 then 0 else 1), pb, pt)) =
                 Some (st, pb', pt')"
        using u True m e0 by (simp add: d)
      then show ?thesis using reach_utf16[OF r] by (auto split: option.splits)
    next
      case SHASM_BLOCK_OMODE_U16BE
      then have "(case shasm_block_utf16 pb e 1 of
                    None \<Rightarrow> None
                  | Some (ok, pb) \<Rightarrow> Some ((if ok = 0 then 0 else 1), pb, pt)) =
                 Some (st, pb', pt')"
        using u True m e0 by (simp add: d)
      then show ?thesis using reach_utf16[OF r] by (auto split: option.splits)
    next
      case SHASM_BLOCK_OMODE_U32LE
      then have "(case shasm_block_utf32 pb e 0 of
                    None \<Rightarrow> None
                  | Some (ok, pb) \<Rightarrow> Some ((if ok = 0 then 0 else 1), pb, pt)) =
                 Some (st, pb', pt')"
        using u True m e0 by (simp add: d)
      then show ?thesis using reach_utf32[OF r] by (auto split: option.splits)
    next
      case SHASM_BLOCK_OMODE_U32BE
      then have "(case shasm_block_utf32 pb e 1 of
                    None \<Rightarrow> None
                  | Some (ok, pb) \<Rightarrow> Some ((if ok = 0 then 0 else 1), pb, pt)) =
                 Some (st, pb', pt')"
        using u True m e0 by (simp add: d)
      then show ?thesis using reach_utf32[OF r] by (auto split: option.splits)
    next
      case SHASM_BLOCK_OMODE_unrecognized
      then show ?thesis using u True m e0 by (simp add: d)
    qed
  qed
qed

section \<open>Claims about the input filter\<close>

text \<open>
  C4, as the code has it.  \<^verbatim>\<open>snfilter_pushback\<close> reports failure (zero) exactly when
  no character has been read yet (\<open>line_count\<close> is zero, which includes a filter whose
  very first read ended in EOF, an I/O error or a bad signature), or when the last read
  delivered a character and pushback mode is already active.  When at least one character
  has been read and the most recent read result is EOF, I/O error or bad signature, the
  call is ignored: it reports success (non-zero) and leaves the filter as it is.
\<close>

theorem snfilter_pushback_status:
  "0 \<le> line_count pFilter \<Longrightarrow>
     ((fst (snfilter_pushback pFilter) = 0) =
        (line_count pFilter = 0 \<or> (0 \<le> last_c pFilter \<and> pushback pFilter \<noteq> 0))) \<and>
     (0 < line_count pFilter \<and> last_c pFilter < 0 \<longrightarrow>
        snfilter_pushback pFilter = (1, pFilter))"
  by (auto simp add: snfilter_pushback_def)

theorem snfilter_pushback_status_witness:
  "(0::int) \<le> line_count \<lparr>line_count = 1, last_c = SNERR_EOF, pushback = 0, bom_present = 0\<rparr> \<and>
   fst (snfilter_pushback \<lparr>line_count = 1, last_c = SNERR_EOF, pushback = 0, bom_present = 0\<rparr>) \<noteq> 0 \<and>
   snfilter_pushback \<lparr>line_count = 1, last_c = SNERR_EOF, pushback = 0, bom_present = 0\<rparr> =
     (1, \<lparr>line_count = 1, last_c = SNERR_EOF, pushback = 0, bom_present = 0\<rparr>)"
  using snfilter_pushback_status
    [of "\<lparr>line_count = 1, last_c = SNERR_EOF, pushback = 0, bom_present = 0\<rparr>"]
  by (simp add: snerr_defs)

text \<open>
  C4 as stated fails: the stream holds the single byte \<open>a\<close>; the first read delivers
  it, the second read returns EOF, so the most recent read result is EOF, and
  \<^verbatim>\<open>snfilter_pushback\<close> then returns 1, not zero.
\<close>

theorem snfilter_pushback_at_eof_succeeds:
  "snfilter_read snfilter_reset (fopen [0x61]) =
     (0x61, \<lparr>line_count = 1, last_c = 0x61, pushback = 0, bom_present = 0\<rparr>, fopen [])
   \<and> snfilter_read \<lparr>line_count = 1, last_c = 0x61, pushback = 0, bom_present = 0\<rparr> (fopen []) =
     (SNERR_EOF, \<lparr>line_count = 1, last_c = SNERR_EOF, pushback = 0, bom_present = 0\<rparr>,
      \<lparr>pending = [], eof_ind = True\<rparr>)
   \<and> snfilter_pushback \<lparr>line_count = 1, last_c = SNERR_EOF, pushback = 0, bom_present = 0\<rparr> =
     (1, \<lparr>line_count = 1, last_c = SNERR_EOF, pushback = 0, bom_present = 0\<rparr>)"
  by (simp add: snfilter_read_def snfilter_read_signature_def snfilter_read_next_def
      snfilter_reset_def snfilter_pushback_def fopen_def getc_def feof_def ungetc_def EOF_def
      bom_defs snerr_defs ascii_defs Let_def)

text \<open>
  C5 does not hold of the code.  A read that ends in the bad-signature error leaves
  \<open>line_count\<close> at zero, and with \<open>line_count\<close> zero the next call runs the
  signature block again and reads on, whatever the structure holds.  On the stream
  EF 41 42 the first read returns the bad-signature error and the second returns the byte
  42; on the stream EF BB (the early end of file) the first read returns the
  bad-signature error and the second returns EOF.
\<close>

theorem snfilter_badsig_not_latched:
  "snfilter_read snfilter_reset (fopen [0xEF, 0x41, 0x42]) =
     (SNERR_BADSIG, \<lparr>line_count = 0, last_c = SNERR_BADSIG, pushback = 0, bom_present = 0\<rparr>, fopen [0x42])
   \<and> snfilter_read \<lparr>line_count = 0, last_c = SNERR_BADSIG, pushback = 0, bom_present = 0\<rparr> (fopen [0x42]) =
     (0x42, \<lparr>line_count = 1, last_c = 0x42, pushback = 0, bom_present = 0\<rparr>, fopen [])
   \<and> snfilter_read snfilter_reset (fopen [0xEF, 0xBB]) =
     (SNERR_BADSIG, \<lparr>line_count = 0, last_c = SNERR_BADSIG, pushback = 0, bom_present = 0\<rparr>,
      \<lparr>pending = [], eof_ind = True\<rparr>)
   \<and> snfilter_read \<lparr>line_count = 0, last_c = SNERR_BADSIG, pushback = 0, bom_present = 0\<rparr>
        \<lparr>pending = [], eof_ind = True\<rparr> =
     (SNERR_EOF, \<lparr>line_count = 0, last_c = SNERR_EOF, pushback = 0, bom_present = 0\<rparr>,
      \<lparr>pending = [], eof_ind = True\<rparr>)"
  by (simp add: snfilter_read_def snfilter_read_signature_def snfilter_read_next_def
      snfilter_reset_def fopen_def getc_def feof_def ungetc_def EOF_def bom_defs snerr_defs
      ascii_defs Let_def)

text \<open>
  C8.  For every byte stream read through a fresh filter, the delivered characters are the
  stream with each bare CR, bare LF, CR LF and LF CR replaced by one LF (both bytes of a
  pair consumed), after the byte order mark if there is one; no CR is among them.
  Moreover no read of a filter that calls can produce returns CR, on any stream, read
  errors and pushback included.
\<close>

theorem snfilter_line_breaks:
  "snfilter_drain snfilter_reset (fopen bs) = map uint (snfilter_expected bs) \<and>
   ASCII_CR \<notin> set (snfilter_drain snfilter_reset (fopen bs)) \<and>
   (snfilter_reachable f \<longrightarrow> fst (snfilter_read f s) \<noteq> ASCII_CR)"
proof (intro conjI impI)
  show d: "snfilter_drain snfilter_reset (fopen bs) = map uint (snfilter_expected bs)"
    by (rule drain_reset)
  have "0x0D \<notin> set (snfilter_expected bs)"
    by (simp add: snfilter_expected_def newline_norm_no_CR)
  then show "ASCII_CR \<notin> set (snfilter_drain snfilter_reset (fopen bs))"
    unfolding d by (auto simp: eq_commute[of ASCII_CR] uint_is_CR)
next
  assume "snfilter_reachable f"
  then have "snfilter_inv (fst (snd (snfilter_read f s)))"
    by (intro snfilter_inv_read snfilter_reachable_inv)
  then show "fst (snfilter_read f s) \<noteq> ASCII_CR"
    by (simp add: snfilter_read_result snfilter_inv_def)
qed

theorem snfilter_line_breaks_witness:
  "snfilter_drain snfilter_reset (fopen [0x61, 0x0D, 0x0A, 0x62, 0x0A, 0x0D, 0x0D, 0x63, 0x0A]) =
     [0x61, 0x0A, 0x62, 0x0A, 0x0A, 0x63, 0x0A] \<and>
   snfilter_reachable snfilter_reset \<and>
   fst (snfilter_read snfilter_reset (fopen [0x0D])) \<noteq> ASCII_CR"
  using snfilter_line_breaks
    [of "[0x61, 0x0D, 0x0A, 0x62, 0x0A, 0x0D, 0x0D, 0x63, 0x0A]" snfilter_reset "fopen [0x0D]"]
    reach_reset
  by (simp add: snfilter_expected_def)

section \<open>Claims about the string readers\<close>

text \<open>
  C2, as the code has it.  In the quoted string reader the escape flag is set after a byte
  exactly when that byte is a backslash and cleared otherwise, whatever the flag was
  before; so the second backslash of a backslash-backslash pair sets the flag again, and a
  double quote right after the pair does not end the literal.  The reader ends the literal
  at the first double quote that does not directly follow a backslash: when the delivered
  characters hold such a quote, the data before it has no NUL and fits the buffer, the
  reader succeeds with exactly that data and leaves the characters after the quote unread.
\<close>

theorem snstr_readQuoted_escape:
  assumes "snfilter_reachable pFilter" and "snbuffer_ok pBuffer"
    and "quoted_literal False (snfilter_drain pFilter pIn) = Some (body, rest)"
    and "0 \<notin> set body" and "int (length body) < maxcap pBuffer"
  shows "\<exists>b' s' f'. snstr_readQuoted pBuffer pIn pFilter = Some (0, b', s', f') \<and>
           snbuffer_data b' = map word_of_int body \<and> snfilter_drain f' s' = rest"
  using readQuoted_loop_literal[of pFilter "snbuffer_reset pBuffer 0" 0 pIn body rest]
    assms snbuffer_reset_ok[OF assms(2)] snfilter_reachable_inv[OF assms(1)]
  by (simp add: snstr_readQuoted_def)

theorem snstr_readQuoted_escape_witness:
  "snfilter_reachable snfilter_reset \<and>
   snbuffer_ok \<lparr>pBuf = [], count = 0, cap = 0, initcap = 4, maxcap = 16\<rparr> \<and>
   quoted_literal False (snfilter_drain snfilter_reset (fopen [0x5C, 0x5C, 0x22, 0x41, 0x22])) =
     Some ([0x5C, 0x5C, 0x22, 0x41], []) \<and>
   (\<exists>b' s' f'.
      snstr_readQuoted \<lparr>pBuf = [], count = 0, cap = 0, initcap = 4, maxcap = 16\<rparr>
        (fopen [0x5C, 0x5C, 0x22, 0x41, 0x22]) snfilter_reset = Some (0, b', s', f') \<and>
      snbuffer_data b' = [0x5C, 0x5C, 0x22, 0x41] \<and> snfilter_drain f' s' = [])"
proof -
  have d: "snfilter_drain snfilter_reset (fopen [0x5C, 0x5C, 0x22, 0x41, 0x22]) =
             [0x5C, 0x5C, 0x22, 0x41, 0x22]"
    by (simp add: drain_reset snfilter_expected_def)
  have q: "quoted_literal False (snfilter_drain snfilter_reset (fopen [0x5C, 0x5C, 0x22, 0x41, 0x22])) =
     Some ([0x5C, 0x5C, 0x22, 0x41], [])"
    unfolding d by (simp add: ascii_defs)
  have ok: "snbuffer_ok \<lparr>pBuf = [], count = 0, cap = 0, initcap = 4, maxcap = 16\<rparr>"
    by (simp add: snbuffer_ok_def)
  show ?thesis
    using snstr_readQuoted_escape[OF reach_reset ok q] q ok reach_reset by simp
qed

text \<open>
  C2 as stated fails.  String data backslash, backslash, double quote, read with the
  escape flag clear: the reader does not end the literal at that quote.  With nothing
  after it the reader fails with the open-string error; with the bytes \<open>A\<close> and double
  quote after it the literal is backslash, backslash, double quote, \<open>A\<close>.
\<close>

theorem snstr_readQuoted_double_backslash:
  "snstr_readQuoted \<lparr>pBuf = [], count = 0, cap = 0, initcap = 4, maxcap = 16\<rparr>
       (fopen [0x5C, 0x5C, 0x22]) snfilter_reset =
     Some (SNERR_OPENSTR,
           \<lparr>pBuf = [0x5C, 0x5C, 0x22, 0], count = 3, cap = 4, initcap = 4, maxcap = 16\<rparr>,
           \<lparr>pending = [], eof_ind = True\<rparr>,
           \<lparr>line_count = 1, last_c = SNERR_EOF, pushback = 0, bom_present = 0\<rparr>) \<and>
   snstr_readQuoted \<lparr>pBuf = [], count = 0, cap = 0, initcap = 4, maxcap = 16\<rparr>
       (fopen [0x5C, 0x5C, 0x22, 0x41, 0x22]) snfilter_reset =
     Some (0,
           \<lparr>pBuf = [0x5C, 0x5C, 0x22, 0x41, 0, 0, 0, 0], count = 4, cap = 8, initcap = 4, maxcap = 16\<rparr>,
           \<lparr>pending = [], eof_ind = False\<rparr>,
           \<lparr>line_count = 1, last_c = 0x22, pushback = 0, bom_present = 0\<rparr>)"
  by code_simp

text \<open>
  C10.  Whatever the buffer and the stream, and for every filter that calls can produce,
  neither string reader reaches the abort of \<^verbatim>\<open>snbuffer_append\<close>: every character
  handed to it is between 1 and 255, since negative results and NUL leave the loop before
  the append.
\<close>

theorem snstr_append_never_aborts:
  "snfilter_reachable pFilter \<Longrightarrow>
     snstr_readQuoted pBuffer pIn pFilter \<noteq> None \<and>
     snstr_readCurlied pBuffer pIn pFilter \<noteq> None"
  by (simp add: snstr_readQuoted_def snstr_readCurlied_def readQuoted_loop_no_abort
      readCurlied_loop_no_abort snfilter_reachable_inv)

theorem snstr_append_never_aborts_witness:
  "snfilter_reachable snfilter_reset \<and>
   snstr_readQuoted \<lparr>pBuf = [], count = 0, cap = 0, initcap = 4, maxcap = 16\<rparr>
     (fopen [0x61, 0xFF, 0x00, 0x22]) snfilter_reset \<noteq> None \<and>
   snstr_readCurlied \<lparr>pBuf = [], count = 0, cap = 0, initcap = 4, maxcap = 16\<rparr>
     (fopen [0x61, 0xFF, 0x00, 0x22]) snfilter_reset \<noteq> None"
  using snstr_append_never_aborts[OF reach_reset,
      of "\<lparr>pBuf = [], count = 0, cap = 0, initcap = 4, maxcap = 16\<rparr>"
         "fopen [0x61, 0xFF, 0x00, 0x22]"] reach_reset
  by simp

section \<open>Claims about the token reader\<close>

text \<open>
  C3, as the code has it.  Each of the two token readers finishes a token right after its
  first character when that character is one of its own atomic characters, whatever
  follows.  For \<^verbatim>\<open>sntk_readToken\<close> these are the eleven characters that
  \<^verbatim>\<open>snchar_isatomic\<close> accepts (the two parentheses, the two square brackets, comma,
  percent, semicolon, double quote, grave accent and the two curly brackets); for
  \<^verbatim>\<open>shasm_block_token\<close> they are ten (the two parentheses, the two square brackets,
  comma, percent, semicolon, double quote, apostrophe and the left curly bracket).  The
  first character is the one read after the whitespace and comments; the token is exactly
  that character and the input is left as that one read left it.  This is for a reader
  that can store the character: a well-formed buffer of \<^verbatim>\<open>sntk_readToken\<close> with a
  maximum capacity of at least two, a block reader that is not in an error state.
\<close>

theorem token_atomic_characters:
  "(sntk_skip pIn pFilter = Some (pIn1, pFilter1) \<and>
    snfilter_read pFilter1 pIn1 = (c, pFilter2, pIn2) \<and>
    snchar_isatomic c \<noteq> 0 \<and> snbuffer_ok pBuffer \<and> 2 \<le> maxcap pBuffer \<longrightarrow>
      (\<exists>b'. sntk_readToken pBuffer pIn pFilter = Some (0, b', pIn2, pFilter2) \<and>
         snbuffer_data b' = [word_of_int c])) \<and>
   (block_ok pb \<and> code pb = SHASM_OKAY \<and>
    shasm_block_token_skip pb ps = Some (1, pb1, ps1) \<and>
    shasm_input_get ps1 = (c', ps2) \<and>
    (c' = SHASM_ASCII_LPAREN \<or> c' = SHASM_ASCII_RPAREN \<or> c' = SHASM_ASCII_LSQR \<or>
     c' = SHASM_ASCII_RSQR \<or> c' = SHASM_ASCII_COMMA \<or> c' = SHASM_ASCII_PERCENT \<or>
     c' = SHASM_ASCII_SEMICOLON \<or> c' = SHASM_ASCII_DQUOTE \<or> c' = SHASM_ASCII_SQUOTE \<or>
     c' = SHASM_ASCII_LCURL) \<longrightarrow>
      (\<exists>pb'. shasm_block_token pb ps = Some (1, pb', ps2) \<and>
         block_data pb' = [word_of_int c'] \<and> code pb' = SHASM_OKAY))"
  using sntk_readToken_single[of pIn pFilter pIn1 pFilter1 c pFilter2 pIn2 pBuffer]
    shasm_block_token_single[of pb ps pb1 ps1 c' ps2]
  by blast

theorem token_atomic_characters_witness:
  "sntk_skip (fopen [0x20, 0x28, 0x61, 0x62]) snfilter_reset =
     Some (\<lparr>pending = [Byte 0x61, Byte 0x62], eof_ind = False\<rparr>,
           \<lparr>line_count = 1, last_c = 0x28, pushback = 1, bom_present = 0\<rparr>) \<and>
   snfilter_read \<lparr>line_count = 1, last_c = 0x28, pushback = 1, bom_present = 0\<rparr>
       \<lparr>pending = [Byte 0x61, Byte 0x62], eof_ind = False\<rparr> =
     (0x28, \<lparr>line_count = 1, last_c = 0x28, pushback = 0, bom_present = 0\<rparr>,
      \<lparr>pending = [Byte 0x61, Byte 0x62], eof_ind = False\<rparr>) \<and>
   snchar_isatomic 0x28 \<noteq> 0 \<and>
   snbuffer_ok \<lparr>pBuf = [], count = 0, cap = 0, initcap = 4, maxcap = 1024\<rparr> \<and>
   (\<exists>b'. sntk_readToken \<lparr>pBuf = [], count = 0, cap = 0, initcap = 4, maxcap = 1024\<rparr>
            (fopen [0x20, 0x28, 0x61, 0x62]) snfilter_reset =
          Some (0, b', \<lparr>pending = [Byte 0x61, Byte 0x62], eof_ind = False\<rparr>,
                \<lparr>line_count = 1, last_c = 0x28, pushback = 0, bom_present = 0\<rparr>) \<and>
        snbuffer_data b' = [0x28]) \<and>
   block_ok shasm_block_alloc \<and> code shasm_block_alloc = SHASM_OKAY \<and>
   shasm_block_token_skip shasm_block_alloc
       \<lparr>ahead = [0x20, 0x27, 0x61, 0x62], io_fails = False, unread = None, line_at = (\<lambda>n. 1)\<rparr> =
     Some (1, shasm_block_alloc\<lparr>line := 1\<rparr>,
           \<lparr>ahead = [0x27, 0x61, 0x62], io_fails = False, unread = None, line_at = (\<lambda>n. 1)\<rparr>) \<and>
   shasm_input_get
       \<lparr>ahead = [0x27, 0x61, 0x62], io_fails = False, unread = None, line_at = (\<lambda>n. 1)\<rparr> =
     (0x27, \<lparr>ahead = [0x61, 0x62], io_fails = False, unread = Some 0x27, line_at = (\<lambda>n. 1)\<rparr>) \<and>
   (0x27 :: int) = SHASM_ASCII_SQUOTE \<and>
   (\<exists>pb'. shasm_block_token shasm_block_alloc
             \<lparr>ahead = [0x20, 0x27, 0x61, 0x62], io_fails = False, unread = None,
              line_at = (\<lambda>n. 1)\<rparr> =
           Some (1, pb', \<lparr>ahead = [0x61, 0x62], io_fails = False, unread = Some 0x27,
                         line_at = (\<lambda>n. 1)\<rparr>) \<and>
         block_data pb' = [0x27])"
proof -
  have sk: "sntk_skip (fopen [0x20, 0x28, 0x61, 0x62]) snfilter_reset =
     Some (\<lparr>pending = [Byte 0x61, Byte 0x62], eof_ind = False\<rparr>,
           \<lparr>line_count = 1, last_c = 0x28, pushback = 1, bom_present = 0\<rparr>)"
    by code_simp
  have rd: "snfilter_read \<lparr>line_count = 1, last_c = 0x28, pushback = 1, bom_present = 0\<rparr>
       \<lparr>pending = [Byte 0x61, Byte 0x62], eof_ind = False\<rparr> =
     (0x28, \<lparr>line_count = 1, last_c = 0x28, pushback = 0, bom_present = 0\<rparr>,
      \<lparr>pending = [Byte 0x61, Byte 0x62], eof_ind = False\<rparr>)"
    by code_simp
  have at: "snchar_isatomic 0x28 \<noteq> 0" by (simp add: snchar_isatomic_def ascii_defs)
  have ok: "snbuffer_ok \<lparr>pBuf = [], count = 0, cap = 0, initcap = 4, maxcap = 1024\<rparr>"
    by (simp add: snbuffer_ok_def)
  have mc: "2 \<le> maxcap \<lparr>pBuf = [], count = 0, cap = 0, initcap = 4, maxcap = 1024\<rparr>"
    by simp
  have bo: "block_ok shasm_block_alloc" "code shasm_block_alloc = SHASM_OKAY"
    using block_ok_alloc by (simp_all add: shasm_block_alloc_def)
  have bs: "shasm_block_token_skip shasm_block_alloc
       \<lparr>ahead = [0x20, 0x27, 0x61, 0x62], io_fails = False, unread = None, line_at = (\<lambda>n. 1)\<rparr> =
     Some (1, shasm_block_alloc\<lparr>line := 1\<rparr>,
           \<lparr>ahead = [0x27, 0x61, 0x62], io_fails = False, unread = None, line_at = (\<lambda>n. 1)\<rparr>)"
    by (simp add: shasm_block_token_skip.simps shasm_block_token_space.simps shasm_input_get_def
        shasm_input_back_def shasm_input_count_def shasm_ascii_defs)
  have bg: "shasm_input_get
       \<lparr>ahead = [0x27, 0x61, 0x62], io_fails = False, unread = None, line_at = (\<lambda>n. 1)\<rparr> =
     (0x27, \<lparr>ahead = [0x61, 0x62], io_fails = False, unread = Some 0x27, line_at = (\<lambda>n. 1)\<rparr>)"
    by (simp add: shasm_input_get_def)
  have sq: "(0x27 :: int) = SHASM_ASCII_SQUOTE" by (simp add: shasm_ascii_defs)
  note t = token_atomic_characters
    [of "fopen [0x20, 0x28, 0x61, 0x62]" snfilter_reset
        "\<lparr>pending = [Byte 0x61, Byte 0x62], eof_ind = False\<rparr>"
        "\<lparr>line_count = 1, last_c = 0x28, pushback = 1, bom_present = 0\<rparr>"
        "0x28" "\<lparr>line_count = 1, last_c = 0x28, pushback = 0, bom_present = 0\<rparr>"
        "\<lparr>pending = [Byte 0x61, Byte 0x62], eof_ind = False\<rparr>"
        "\<lparr>pBuf = [], count = 0, cap = 0, initcap = 4, maxcap = 1024\<rparr>"
        shasm_block_alloc
        "\<lparr>ahead = [0x20, 0x27, 0x61, 0x62], io_fails = False, unread = None, line_at = (\<lambda>n. 1)\<rparr>"
        "shasm_block_alloc\<lparr>line := 1\<rparr>"
        "\<lparr>ahead = [0x27, 0x61, 0x62], io_fails = False, unread = None, line_at = (\<lambda>n. 1)\<rparr>"
        "0x27"
        "\<lparr>ahead = [0x61, 0x62], io_fails = False, unread = Some 0x27, line_at = (\<lambda>n. 1)\<rparr>"]
  have r1: "\<exists>b'. sntk_readToken \<lparr>pBuf = [], count = 0, cap = 0, initcap = 4, maxcap = 1024\<rparr>
            (fopen [0x20, 0x28, 0x61, 0x62]) snfilter_reset =
          Some (0, b', \<lparr>pending = [Byte 0x61, Byte 0x62], eof_ind = False\<rparr>,
                \<lparr>line_count = 1, last_c = 0x28, pushback = 0, bom_present = 0\<rparr>) \<and>
        snbuffer_data b' = [0x28]"
    using mp[OF conjunct1[OF t]] sk rd at ok mc by simp
  have r2: "\<exists>pb'. shasm_block_token shasm_block_alloc
             \<lparr>ahead = [0x20, 0x27, 0x61, 0x62], io_fails = False, unread = None,
              line_at = (\<lambda>n. 1)\<rparr> =
           Some (1, pb', \<lparr>ahead = [0x61, 0x62], io_fails = False, unread = Some 0x27,
                         line_at = (\<lambda>n. 1)\<rparr>) \<and>
         block_data pb' = [0x27]"
    using mp[OF conjunct2[OF t]] bo bs bg by (auto simp add: shasm_ascii_defs)
  show ?thesis using sk rd at ok r1 bo bs bg sq r2 by blast
qed

text \<open>
  C3 as stated fails for three of its twelve characters.  \<^verbatim>\<open>snchar_isatomic\<close> does
  not accept the apostrophe: on the input apostrophe, \<open>a\<close>, \<open>b\<close>, space the token
  of \<^verbatim>\<open>sntk_readToken\<close> is the three characters apostrophe, \<open>a\<close>, \<open>b\<close>.
  \<^verbatim>\<open>shasm_block_token\<close> does not test for the grave accent or the right curly
  bracket: on the input grave accent, \<open>a\<close>, \<open>b\<close>, space its token is the three
  characters grave accent, \<open>a\<close>, \<open>b\<close>, and on the input right curly bracket,
  \<open>a\<close>, \<open>b\<close>, space it is the three characters right curly bracket, \<open>a\<close>,
  \<open>b\<close>.
\<close>

theorem token_twelve_characters_fail:
  "sntk_readToken \<lparr>pBuf = [], count = 0, cap = 0, initcap = 4, maxcap = 1024\<rparr>
       (fopen [0x27, 0x61, 0x62, 0x20]) snfilter_reset =
     Some (0, \<lparr>pBuf = [0x27, 0x61, 0x62, 0], count = 3, cap = 4, initcap = 4, maxcap = 1024\<rparr>,
           \<lparr>pending = [], eof_ind = False\<rparr>,
           \<lparr>line_count = 1, last_c = 0x20, pushback = 1, bom_present = 0\<rparr>) \<and>
   map_option (\<lambda>(status, pb, ps). (status, block_data pb, ahead ps))
     (shasm_block_token shasm_block_alloc
        \<lparr>ahead = [0x60, 0x61, 0x62, 0x20], io_fails = False, unread = None,
         line_at = (\<lambda>n. 1)\<rparr>) =
     Some (1, [0x60, 0x61, 0x62], [0x20]) \<and>
   map_option (\<lambda>(status, pb, ps). (status, block_data pb, ahead ps))
     (shasm_block_token shasm_block_alloc
        \<lparr>ahead = [0x7d, 0x61, 0x62, 0x20], io_fails = False, unread = None,
         line_at = (\<lambda>n. 1)\<rparr>) =
     Some (1, [0x7d, 0x61, 0x62], [0x20])"
  by code_simp

section \<open>Claims about the block reader\<close>

text \<open>
  C1 does not hold of the code.  With the capacity at its ceiling of 32767 and 32766 bytes
  stored, \<^verbatim>\<open>shasm_block_addByte\<close> still succeeds: the test that should refuse the
  append compares the length, not the capacity, with the ceiling.  The stored length
  becomes 32767, the whole buffer, and the byte is written where the terminating zero
  was.  Hence a token of 32767 bytes is read with success and only one of 32768 bytes
  fails (\<open>shasm_block_token_32767\<close>, \<open>shasm_block_token_32768\<close>).
\<close>

theorem shasm_block_addByte_at_ceiling:
  "map_option (\<lambda>(status, pb). (status, buf_len pb, buf_cap pb, length (block_pBuf pb)))
     (shasm_block_addByte
        \<lparr>code = SHASM_OKAY, line = 1, buf_cap = 32767, buf_len = 32766, null_present = 0,
         block_pBuf = replicate 32766 0x41 @ [0]\<rparr> 0x41) =
     Some (1, 32767, 32767, 32767)"
  by (simp add: shasm_block_addByte_def Let_def shasm_defs)

text \<open>
  C6.  For every entity code above 0x10FFFF, and for every surrogate code when the strict
  flag is set, \<^verbatim>\<open>shasm_block_encode\<close> does the same for every output override
  selection (an unrecognised one included) as for the selection NONE, which is what
  \<^verbatim>\<open>shasm_block_ereg\<close> does with the encoding table; and when the block is not in
  an error state and has room, it appends exactly the bytes of the table for the entity.
\<close>

theorem shasm_block_encode_forced_none:
  "e > 0x10FFFF \<or> (o_strict \<noteq> 0 \<and> 0xD800 \<le> e \<and> e \<le> 0xDFFF) \<Longrightarrow>
     shasm_block_encode pb e penc o_over o_strict pt =
       shasm_block_encode pb e penc SHASM_BLOCK_OMODE_NONE o_strict pt \<and>
     shasm_block_encode pb e penc o_over o_strict pt = shasm_block_ereg pb e penc pt \<and>
     (block_ok pb \<and> code pb = SHASM_OKAY \<and>
      buf_len pb + int (length (penc e)) \<le> SHASM_BLOCK_MAXBUFFER \<longrightarrow>
        (\<exists>pb' pt'. shasm_block_encode pb e penc o_over o_strict pt = Some (1, pb', pt') \<and>
           block_data pb' = block_data pb @ penc e))"
proof -
  assume a: "e > 0x10FFFF \<or> (o_strict \<noteq> 0 \<and> 0xD800 \<le> e \<and> e \<le> 0xDFFF)"
  then have h: "e > SHASM_BLOCK_MAXCODE \<or>
           (o_strict \<noteq> 0 \<and> SHASM_BLOCK_MINSURROGATE \<le> e \<and> e \<le> SHASM_BLOCK_MAXSURROGATE)"
    by (simp add: shasm_defs)
  have e0: "0 \<le> e" using a by auto
  show ?thesis
    using encode_is_ereg[OF h] ereg_appends[of pb e penc pt] e0 by auto
qed

theorem shasm_block_encode_forced_none_witness:
  "(0x200005 :: int) > 0x10FFFF \<and>
   shasm_block_encode shasm_block_alloc 0x200005 (\<lambda>e. if e = 0x200005 then [0x3C, 0x35, 0x3E] else [])
       SHASM_BLOCK_OMODE_U32BE 1 shasm_block_tbuf_init =
     shasm_block_encode shasm_block_alloc 0x200005 (\<lambda>e. if e = 0x200005 then [0x3C, 0x35, 0x3E] else [])
       SHASM_BLOCK_OMODE_NONE 1 shasm_block_tbuf_init \<and>
   block_ok shasm_block_alloc \<and> code shasm_block_alloc = SHASM_OKAY \<and>
   (\<exists>pb' pt'.
      shasm_block_encode shasm_block_alloc 0x200005 (\<lambda>e. if e = 0x200005 then [0x3C, 0x35, 0x3E] else [])
        SHASM_BLOCK_OMODE_U32BE 1 shasm_block_tbuf_init = Some (1, pb', pt') \<and>
      block_data pb' = [0x3C, 0x35, 0x3E])"
proof -
  define penc :: "int \<Rightarrow> 8 word list"
    where "penc = (\<lambda>e. if e = 0x200005 then [0x3C, 0x35, 0x3E] else [])"
  have r: "block_ok shasm_block_alloc" "code shasm_block_alloc = SHASM_OKAY"
    "buf_len shasm_block_alloc + int (length (penc 0x200005)) \<le> SHASM_BLOCK_MAXBUFFER"
    using block_ok_alloc by (simp_all add: shasm_block_alloc_def penc_def shasm_defs)
  have d: "block_data shasm_block_alloc @ penc 0x200005 = [0x3C, 0x35, 0x3E]"
    by (simp add: shasm_block_alloc_def block_data_def penc_def)
  have h: "(0x200005 :: int) > 0x10FFFF \<or> ((1::int) \<noteq> 0 \<and> (0xD800::int) \<le> 0x200005 \<and> (0x200005::int) \<le> 0xDFFF)"
    by simp
  note t = shasm_block_encode_forced_none
      [of "0x200005" 1 shasm_block_alloc penc SHASM_BLOCK_OMODE_U32BE shasm_block_tbuf_init, OF h]
  have e1: "shasm_block_encode shasm_block_alloc 0x200005 penc SHASM_BLOCK_OMODE_U32BE 1
          shasm_block_tbuf_init =
        shasm_block_encode shasm_block_alloc 0x200005 penc SHASM_BLOCK_OMODE_NONE 1
          shasm_block_tbuf_init"
    using t by (rule conjunct1)
  have e3: "\<exists>pb' pt'.
           shasm_block_encode shasm_block_alloc 0x200005 penc SHASM_BLOCK_OMODE_U32BE 1
             shasm_block_tbuf_init = Some (1, pb', pt') \<and>
           block_data pb' = [0x3C, 0x35, 0x3E]"
    using conjunct2[OF conjunct2[OF t]] r d by auto
  have n: "(0x200005 :: int) > 0x10FFFF" by simp
  show ?thesis using n e1 e3 r(1,2) unfolding penc_def by blast
qed

text \<open>
  C7.  For every entity code from 0x10000 to 0x10FFFF, \<^verbatim>\<open>shasm_block_pair\<close> gives the
  high surrogate 0xD800 + ((e - 0x10000) >> 10) and the low surrogate
  0xDC00 + ((e - 0x10000) & 0x3FF); recombining them gives the entity code again; and
  the UTF-16 encoder writes the two bytes of the high surrogate before those of the low
  one.
\<close>

theorem shasm_block_pair_roundtrip:
  assumes "0x10000 \<le> e" and "e \<le> 0x10FFFF"
  shows "\<exists>high low. shasm_block_pair e = Some (high, low) \<and>
           high = 0xD800 + drop_bit 10 (e - 0x10000) \<and>
           low = 0xDC00 + ((e - 0x10000) AND 0x3FF) \<and>
           0xD800 \<le> high \<and> high \<le> 0xDBFF \<and> 0xDC00 \<le> low \<and> low \<le> 0xDFFF \<and>
           (high - 0xD800) * 0x400 + (low - 0xDC00) + 0x10000 = e \<and>
           (block_ok pb \<and> code pb = SHASM_OKAY \<and> buf_len pb + 4 \<le> SHASM_BLOCK_MAXBUFFER \<longrightarrow>
              (\<exists>pb'. shasm_block_utf16 pb e big = Some (1, pb') \<and>
                 block_data pb' = block_data pb @ utf16_unit big high @ utf16_unit big low))"
proof -
  obtain high low where p: "shasm_block_pair e = Some (high, low)"
    using pair_values(1)[OF assms] by blast
  show ?thesis
    using pair_values[OF assms] p utf16_supplemental[OF _ _ assms _ p, of pb big]
    by (auto simp add: and_3ff drop_bit_eq_div)
qed

theorem shasm_block_pair_roundtrip_witness:
  "(0x10000 :: int) \<le> 0x10348 \<and> (0x10348 :: int) \<le> 0x10FFFF \<and>
   shasm_block_pair 0x10348 = Some (0xD800, 0xDF48) \<and>
   (0xD800 - 0xD800) * 0x400 + (0xDF48 - 0xDC00) + 0x10000 = (0x10348 :: int) \<and>
   block_ok shasm_block_alloc \<and> code shasm_block_alloc = SHASM_OKAY \<and>
   (\<exists>pb'. shasm_block_utf16 shasm_block_alloc 0x10348 0 = Some (1, pb') \<and>
      block_data pb' = [0x00, 0xD8, 0x48, 0xDF])"
proof -
  have a: "drop_bit 10 ((0x10348::int) - 0x10000) = 0" "((0x10348::int) - 0x10000) AND 0x3FF = 0x348"
    by (simp_all add: drop_bit_eq_div and_3ff)
  have u: "utf16_unit 0 0xD800 = [0x00, 0xD8]" "utf16_unit 0 0xDF48 = [0x48, 0xDF]"
    by (simp_all add: utf16_unit_def drop_bit_eq_div)
  show ?thesis
    using shasm_block_pair_roundtrip[of "0x10348" shasm_block_alloc 0] block_ok_alloc a u
    by (simp add: shasm_block_alloc_def block_data_def shasm_defs)
qed

text \<open>
  C9.  Whenever the block reader is in an error state, \<^verbatim>\<open>shasm_block_count\<close> returns
  0, \<^verbatim>\<open>shasm_block_line\<close> returns \<^verbatim>\<open>LONG_MAX\<close>, and \<^verbatim>\<open>shasm_block_ptr\<close>
  returns a pointer to an empty string (and the count stays 0 after it).  This holds in
  every state that a sequence of operations produces from a new block reader, and indeed
  in every state with a buffer of at least one byte, whatever the other fields hold.
\<close>

theorem shasm_block_error_views:
  assumes "code pb \<noteq> SHASM_OKAY" and "shasm_block_reachable pb \<or> block_pBuf pb \<noteq> []"
  shows "shasm_block_count pb = 0 \<and>
         shasm_block_line pb = LONG_MAX \<and>
         (\<exists>mem. fst (shasm_block_ptr pb null_term) = Some mem \<and> c_string mem = []) \<and>
         shasm_block_count (snd (shasm_block_ptr pb null_term)) = 0"
proof -
  have "block_pBuf pb \<noteq> []"
    using assms(2) block_ok_nonempty[OF shasm_block_reachable_ok] by blast
  then show ?thesis
    using assms(1)
    by (cases "block_pBuf pb")
       (simp_all add: shasm_block_count_def shasm_block_line_def shasm_block_ptr_def Let_def
          c_string_def)
qed

theorem shasm_block_error_views_witness:
  "map_option (\<lambda>(status, pb, ps). (status, pb))
     (shasm_block_token shasm_block_alloc
        \<lparr>ahead = [0x20], io_fails = False, unread = None, line_at = (\<lambda>n. 1)\<rparr>) =
     Some (0, \<lparr>code = SHASM_ERR_EOF, line = 1, buf_cap = 32, buf_len = 0, null_present = 0,
               block_pBuf = replicate 32 0\<rparr>) \<and>
   shasm_block_reachable \<lparr>code = SHASM_ERR_EOF, line = 1, buf_cap = 32, buf_len = 0,
           null_present = 0, block_pBuf = replicate 32 0\<rparr> \<and>
   shasm_block_count \<lparr>code = SHASM_ERR_EOF, line = 1, buf_cap = 32, buf_len = 0, null_present = 0,
           block_pBuf = replicate 32 0\<rparr> = 0 \<and>
   shasm_block_line \<lparr>code = SHASM_ERR_EOF, line = 1, buf_cap = 32, buf_len = 0, null_present = 0,
           block_pBuf = replicate 32 0\<rparr> = LONG_MAX \<and>
   (\<exists>mem. fst (shasm_block_ptr \<lparr>code = SHASM_ERR_EOF, line = 1, buf_cap = 32, buf_len = 0,
           null_present = 0, block_pBuf = replicate 32 0\<rparr> 1) = Some mem \<and> c_string mem = [])"
proof -
  let ?pb = "\<lparr>code = SHASM_ERR_EOF, line = 1, buf_cap = 32, buf_len = 0, null_present = 0,
           block_pBuf = replicate 32 (0 :: 8 word)\<rparr>"
  have tk: "map_option (\<lambda>(status, pb, ps). (status, pb))
     (shasm_block_token shasm_block_alloc
        \<lparr>ahead = [0x20], io_fails = False, unread = None, line_at = (\<lambda>n. 1)\<rparr>) = Some (0, ?pb)"
    by (simp add: shasm_block_token_def shasm_block_token_skip.simps
        shasm_block_token_space.simps shasm_input_get_def shasm_input_count_def
        shasm_block_seterr_def shasm_block_clear_def shasm_block_alloc_def pBuf_at_def
        shasm_ascii_defs shasm_defs)
  have se: "shasm_block_seterr shasm_block_alloc 1 SHASM_ERR_EOF = Some ?pb"
    by (simp add: shasm_block_seterr_def shasm_block_alloc_def shasm_block_clear_def shasm_defs)
  have re: "shasm_block_reachable ?pb" using reach_seterr[OF reach_alloc se] .
  have er: "code ?pb \<noteq> SHASM_OKAY" by simp
  show ?thesis
    using shasm_block_error_views[OF er disjI1[OF re], of 1] tk re by blast
qed

end
